theory Spec2Isabelle
  imports Main "HOL-Library.AList" "HOL-Library.Sublist"
begin

section \<open>The aiomemq broker (src/cpp/aiomemq.cpp)\<close>

subsection \<open>JSON values and objects\<close>

text \<open>
  A \<open>js::value\<close> carries one of eight kinds. A \<open>js::object\<close> keeps its members in
  insertion order with unique keys: an association list. The payload of an \<open>int64\<close> is
  its signed value; a \<open>double\<close> is kept as its literal text, no claim computes with one.
\<close>

datatype json =
    JNull
  | JBool bool
  | JInt64 int
  | JUint64 nat
  | JDouble string
  | JString string
  | JArray "json list"
  | JObject "(string \<times> json) list"

type_synonym object = "(string \<times> json) list"

datatype kind = KNull | KBool | KInt64 | KUint64 | KDouble | KString | KArray | KObject

fun kind_of :: "json \<Rightarrow> kind" where
  "kind_of JNull = KNull"
| "kind_of (JBool _) = KBool"
| "kind_of (JInt64 _) = KInt64"
| "kind_of (JUint64 _) = KUint64"
| "kind_of (JDouble _) = KDouble"
| "kind_of (JString _) = KString"
| "kind_of (JArray _) = KArray"
| "kind_of (JObject _) = KObject"

text \<open>
  What ends a handler abnormally. \<open>PopFrontEmpty\<close> (\<open>pop_front\<close> on an empty deque) and
  \<open>SignedOverflow\<close> (\<open>++\<close> on an \<open>int\<close> holding \<open>INT_MAX\<close>) are undefined behaviour;
  \<open>JsonAccess\<close> is the exception of \<open>object::at\<close> on a missing key or of \<open>as_int64\<close>,
  \<open>as_string\<close>, \<open>as_bool\<close> on another kind; \<open>InvalidArgument\<close> and \<open>OutOfRange\<close> are the
  exceptions of \<open>std::stoi\<close>. Nothing in the program catches any of them.
\<close>

datatype fault = PopFrontEmpty | SignedOverflow | JsonAccess | InvalidArgument | OutOfRange

definition contains :: "object \<Rightarrow> string \<Rightarrow> bool" where
  "contains obj k = (map_of obj k \<noteq> None)"

definition at :: "object \<Rightarrow> string \<Rightarrow> fault + json" where
  "at obj k = (case map_of obj k of None \<Rightarrow> Inl JsonAccess | Some v \<Rightarrow> Inr v)"

fun as_string :: "json \<Rightarrow> fault + string" where
  "as_string (JString s) = Inr s"
| "as_string _ = Inl JsonAccess"

fun as_bool :: "json \<Rightarrow> fault + bool" where
  "as_bool (JBool c) = Inr c"
| "as_bool _ = Inl JsonAccess"

fun as_int64 :: "json \<Rightarrow> fault + int" where
  "as_int64 (JInt64 i) = Inr i"
| "as_int64 _ = Inl JsonAccess"

definition at_string :: "object \<Rightarrow> string \<Rightarrow> fault + string" where
  "at_string obj k = (case at obj k of Inl e \<Rightarrow> Inl e | Inr v \<Rightarrow> as_string v)"

definition at_bool :: "object \<Rightarrow> string \<Rightarrow> fault + bool" where
  "at_bool obj k = (case at obj k of Inl e \<Rightarrow> Inl e | Inr v \<Rightarrow> as_bool v)"

definition at_int64 :: "object \<Rightarrow> string \<Rightarrow> fault + int" where
  "at_int64 obj k = (case at obj k of Inl e \<Rightarrow> Inl e | Inr v \<Rightarrow> as_int64 v)"

subsection \<open>Machine integers\<close>

text \<open>
  \<open>int\<close> is 32 bits wide. \<open>static_cast<int>\<close> of a 64-bit or \<open>size_t\<close> value keeps the
  low 32 bits, read as two's complement (the build is \<open>-std=c++20\<close>, where the
  conversion is modular).
\<close>

definition INT_MAX :: int where
  "INT_MAX = 2147483647"

definition to_int32 :: "int \<Rightarrow> int" where
  "to_int32 x = (x + 2147483648) mod 4294967296 - 2147483648"

subsection \<open>Global state\<close>

text \<open>
  A session is identified by its \<open>shared_ptr\<close>. A \<open>std::set\<close> is a duplicate-free
  list: \<open>insert\<close> adds an absent element, \<open>erase\<close> removes it. Each
  \<open>unordered_map\<close> is a partial map, and \<open>operator[]\<close> on an absent key stores
  the default value (the empty set, the empty deque, 0) before it is read.
  \<open>written\<close> is the sequence of \<open>asio::write\<close> calls so far: the socket's owner and the
  object serialised to it (each frame is that object's text followed by CR LF). A write
  is taken to succeed; a failing \<open>asio::write\<close> throws, and the exception ends the
  process.
\<close>

type_synonym session = nat

record broker =
  topics :: "string \<rightharpoonup> session list"
  topics_rev :: "session \<rightharpoonup> string list"
  caches :: "string \<rightharpoonup> object list"
  indexs :: "string \<rightharpoonup> int"
  written :: "(session \<times> object) list"

definition init :: broker where
  "init = \<lparr>topics = Map.empty, topics_rev = Map.empty, caches = Map.empty,
           indexs = Map.empty, written = []\<rparr>"

definition subscribers :: "broker \<Rightarrow> string \<Rightarrow> session list" where
  "subscribers b t = (case topics b t of None \<Rightarrow> [] | Some ss \<Rightarrow> ss)"

definition subscriptions :: "broker \<Rightarrow> session \<Rightarrow> string list" where
  "subscriptions b s = (case topics_rev b s of None \<Rightarrow> [] | Some ts \<Rightarrow> ts)"

definition cache_of :: "broker \<Rightarrow> string \<Rightarrow> object list" where
  "cache_of b t = (case caches b t of None \<Rightarrow> [] | Some q \<Rightarrow> q)"

definition next_index :: "broker \<Rightarrow> string \<Rightarrow> int" where
  "next_index b t = (case indexs b t of None \<Rightarrow> 0 | Some i \<Rightarrow> i)"

subsection \<open>Helpers\<close>

text \<open>
  \<open>trim_cache\<close>: \<open>while (static_cast<int>(q.size()) > cache_size) q.pop_front();\<close>
  The capacity \<open>cache_size\<close> is a global set once by \<open>main\<close>; it is the first argument
  of every function that reads it.
\<close>

function trim_cache :: "int \<Rightarrow> 'a list \<Rightarrow> fault + 'a list" where
  "trim_cache cache_size q =
     (if to_int32 (int (length q)) > cache_size
      then (case q of [] \<Rightarrow> Inl PopFrontEmpty | _ # q' \<Rightarrow> trim_cache cache_size q')
      else Inr q)"
  by pat_completeness auto
termination
  by (relation "measure (\<lambda>(cache_size, q). length q)") auto

declare trim_cache.simps [simp del]

definition send_cmd :: "session \<Rightarrow> object \<Rightarrow> broker \<Rightarrow> broker" where
  "send_cmd s obj b = b\<lparr>written := written b @ [(s, obj)]\<rparr>"

definition success :: object where
  "success = [(''success'', JBool True)]"

definition failure :: "string \<Rightarrow> object" where
  "failure why = [(''success'', JBool False), (''reason'', JString why)]"

definition send_success :: "session \<Rightarrow> broker \<Rightarrow> broker" where
  "send_success s b = send_cmd s success b"

definition send_failure :: "session \<Rightarrow> string \<Rightarrow> broker \<Rightarrow> broker" where
  "send_failure s why b = send_cmd s (failure why) b"

text \<open>
  \<open>send_cached\<close>, first loop: every cached message whose 64-bit \<open>index\<close> exceeds
  \<open>last_seen\<close> (an \<open>int\<close>, widened for the comparison) is written to the socket.
\<close>

fun replay :: "session \<Rightarrow> int \<Rightarrow> object list \<Rightarrow> broker \<Rightarrow> fault + broker" where
  "replay s last_seen [] b = Inr b"
| "replay s last_seen (m # q) b =
     (case at_int64 m ''index'' of
        Inl e \<Rightarrow> Inl e
      | Inr idx \<Rightarrow> replay s last_seen q (if idx > last_seen then send_cmd s m b else b))"

text \<open>
  Second loop: \<open>int idx = m.at("index").as_int64();\<close> narrows the index, and
  \<open>m.at("delivery")\<close> is read only when \<open>idx <= last_seen\<close> fails. The result is
  \<open>new_q\<close>, filled by \<open>push_back\<close> in the order of \<open>q\<close>.
\<close>

fun rebuild :: "int \<Rightarrow> object list \<Rightarrow> fault + object list" where
  "rebuild last_seen [] = Inr []"
| "rebuild last_seen (m # q) =
     (case at_int64 m ''index'' of
        Inl e \<Rightarrow> Inl e
      | Inr idx64 \<Rightarrow>
          (case (if to_int32 idx64 \<le> last_seen then Inr True
                 else (case at m ''delivery'' of
                         Inl e \<Rightarrow> Inl e
                       | Inr d \<Rightarrow> Inr (d = JString ''all''))) of
             Inl e \<Rightarrow> Inl e
           | Inr keep \<Rightarrow>
               (case rebuild last_seen q of
                  Inl e \<Rightarrow> Inl e
                | Inr new_q \<Rightarrow> Inr (if keep then m # new_q else new_q))))"

definition send_cached :: "int \<Rightarrow> session \<Rightarrow> string \<Rightarrow> int \<Rightarrow> broker \<Rightarrow> fault + broker" where
  "send_cached cache_size s topic last_seen b =
     (let q = cache_of b topic in
      case replay s last_seen q b of
        Inl e \<Rightarrow> Inl e
      | Inr b1 \<Rightarrow>
          (case rebuild last_seen q of
             Inl e \<Rightarrow> Inl e
           | Inr new_q \<Rightarrow>
               (case trim_cache cache_size new_q of
                  Inl e \<Rightarrow> Inl e
                | Inr q' \<Rightarrow> Inr (b1\<lparr>caches := (caches b1)(topic \<mapsto> q')\<rparr>))))"

subsection \<open>Schema validation\<close>

record FieldSpec =
  kind :: kind
  required :: bool
  allowed :: "json list"

type_synonym Template = "(string \<times> FieldSpec) list"

definition template_subscribe :: Template where
  "template_subscribe =
     [(''command'', \<lparr>kind = KString, required = True, allowed = []\<rparr>),
      (''topic'', \<lparr>kind = KString, required = True, allowed = []\<rparr>),
      (''last_seen'', \<lparr>kind = KInt64, required = False, allowed = []\<rparr>),
      (''cache'', \<lparr>kind = KBool, required = False, allowed = []\<rparr>)]"

definition template_unsubscribe :: Template where
  "template_unsubscribe =
     [(''command'', \<lparr>kind = KString, required = True, allowed = []\<rparr>),
      (''topic'', \<lparr>kind = KString, required = True, allowed = []\<rparr>)]"

definition template_send :: Template where
  "template_send =
     [(''command'', \<lparr>kind = KString, required = True, allowed = []\<rparr>),
      (''topic'', \<lparr>kind = KString, required = True, allowed = []\<rparr>),
      (''msg'', \<lparr>kind = KString, required = True, allowed = []\<rparr>),
      (''delivery'', \<lparr>kind = KString, required = True,
                      allowed = [JString ''all'', JString ''one'']\<rparr>),
      (''cache'', \<lparr>kind = KBool, required = False, allowed = []\<rparr>)]"

text \<open>The two loops of \<open>template_match\<close>, each leaving at its first \<open>return false\<close>.\<close>

fun known_keys :: "Template \<Rightarrow> object \<Rightarrow> bool" where
  "known_keys t [] = True"
| "known_keys t ((k, _) # rest) = (if map_of t k = None then False else known_keys t rest)"

fun fields_match :: "Template \<Rightarrow> object \<Rightarrow> bool" where
  "fields_match [] obj = True"
| "fields_match ((k, spec) # rest) obj =
     (case map_of obj k of
        None \<Rightarrow> if required spec then False else fields_match rest obj
      | Some v \<Rightarrow>
          if kind_of v \<noteq> kind spec then False
          else if allowed spec = [] then fields_match rest obj
          else if v \<notin> set (allowed spec) then False
          else fields_match rest obj)"

definition template_match :: "Template \<Rightarrow> object \<Rightarrow> bool" where
  "template_match t obj = (if \<not> known_keys t obj then False else fields_match t obj)"

definition verify_command :: "object \<Rightarrow> bool" where
  "verify_command obj =
     (case map_of obj ''command'' of
        None \<Rightarrow> False
      | Some v \<Rightarrow>
          (case v of
             JString cmd \<Rightarrow>
               if cmd = ''subscribe'' then template_match template_subscribe obj
               else if cmd = ''unsubscribe'' then template_match template_unsubscribe obj
               else if cmd = ''send'' then template_match template_send obj
               else False
           | _ \<Rightarrow> False))"

subsection \<open>UTF-8 validation\<close>

text \<open>
  \<open>valid_utf8\<close> hands the bytes of the record to
  \<open>boost::locale::conv::utf_to_utf<char32_t>(begin, end)\<close> and reports whether the call
  threw \<open>conversion_error\<close>. The conversion is Boost.Locale's, not the repository's; it
  is written here as the library's headers define it.

  \<^item> \<open>encoding_errors.hpp\<close>:
    \<open>enum method_type { skip = 0, stop = 1, default_method = skip }\<close>.
  \<^item> \<open>utf.hpp\<close>: a \<open>code_point\<close> is a \<open>uint32_t\<close>, with the two values \<open>illegal\<close> and
    \<open>incomplete\<close> set apart; \<open>utf_traits<char>::decode(p, e)\<close> reads one code point at
    \<open>p\<close> and advances \<open>p\<close> past the bytes it looked at. No value computed here leaves
    the range of \<open>uint32_t\<close>, so code points and bytes are integers.
  \<^item> \<open>encoding_utf.hpp\<close>: \<open>utf_to_utf(begin, end, how = default_method)\<close> decodes code
    point after code point; on \<open>illegal\<close> or \<open>incomplete\<close> it throws when \<open>how\<close> is
    \<open>stop\<close> and otherwise goes on from where \<open>decode\<close> left off, leaving the code point out.
\<close>

unbundle bit_operations_syntax

datatype method_type = skip | stop

definition default_method :: method_type where
  "default_method = skip"

type_synonym code_point = int

definition illegal :: code_point where
  "illegal = 0xFFFFFFFF"

definition incomplete :: code_point where
  "incomplete = 0xFFFFFFFE"

definition is_valid_codepoint :: "code_point \<Rightarrow> bool" where
  "is_valid_codepoint v =
     (if v > 0x10FFFF then False
      else if 0xD800 \<le> v \<and> v \<le> 0xDFFF then False
      else True)"

definition trail_length :: "int \<Rightarrow> int" where
  "trail_length c =
     (if c < 128 then 0
      else if c < 194 then - 1
      else if c < 224 then 1
      else if c < 240 then 2
      else if c \<le> 244 then 3
      else - 1)"

definition width :: "code_point \<Rightarrow> int" where
  "width v =
     (if v \<le> 0x7F then 1
      else if v \<le> 0x7FF then 2
      else if v \<le> 0xFFFF then 3
      else 4)"

definition is_trail :: "int \<Rightarrow> bool" where
  "is_trail c = (c AND 0xC0 = 0x80)"

text \<open>
  The \<open>switch (trail_size)\<close> of \<open>decode\<close>, whose cases 3, 2 and 1 fall through: each
  reads one trail byte into \<open>c\<close>. \<open>Inl\<close> is a \<open>return\<close> from inside the switch, \<open>Inr\<close>
  falls out of it; both carry where \<open>p\<close> stands.
\<close>

fun read_trail ::
  "nat \<Rightarrow> code_point \<Rightarrow> string \<Rightarrow> (code_point \<times> string) + (code_point \<times> string)" where
  "read_trail 0 c p = Inr (c, p)"
| "read_trail (Suc n) c [] = Inl (incomplete, [])"
| "read_trail (Suc n) c (tmp # p) =
     (if \<not> is_trail (of_char tmp) then Inl (illegal, p)
      else read_trail n (push_bit 6 c OR (of_char tmp AND 0x3F)) p)"

definition utf_traits_decode :: "string \<Rightarrow> code_point \<times> string" where
  "utf_traits_decode p =
     (case p of
        [] \<Rightarrow> (incomplete, [])
      | x # p' \<Rightarrow>
          (let lead = of_char x;
               trail_size = trail_length lead
           in if trail_size < 0 then (illegal, p')
              else if trail_size = 0 then (lead, p')
              else (case read_trail (nat trail_size)
                           (lead AND (push_bit (nat (6 - trail_size)) 1 - 1)) p' of
                      Inl early \<Rightarrow> early
                    | Inr (c, p'') \<Rightarrow>
                        if \<not> is_valid_codepoint c then (illegal, p'')
                        else if width c \<noteq> trail_size + 1 then (illegal, p'')
                        else (c, p''))))"

text \<open>
  \<open>utf_to_utf\<close> into a \<open>char32_t\<close> string: \<open>None\<close> is the \<open>conversion_error\<close> thrown,
  \<open>Some\<close> the string returned (one \<open>char32_t\<close> for each code point decoded).
\<close>

function conv_utf_to_utf :: "method_type \<Rightarrow> string \<Rightarrow> nat list option" where
  "conv_utf_to_utf how p =
     (if p = [] then Some []
      else (case utf_traits_decode p of
              (c, p') \<Rightarrow>
                if c = illegal \<or> c = incomplete
                then (if how = stop then None else conv_utf_to_utf how p')
                else (case conv_utf_to_utf how p' of
                        None \<Rightarrow> None
                      | Some result \<Rightarrow> Some (nat c # result))))"
  by pat_completeness auto
termination
proof -
  have t: "length (snd (case read_trail n c p of Inl e \<Rightarrow> e | Inr r \<Rightarrow> r)) \<le> length p"
    for n c p
    by (induction n c p rule: read_trail.induct) (simp_all add: le_SucI)
  have r: "length q \<le> length p" if "read_trail n c p = Inr (d, q)" for n c p d q
    using t [of n c p] that by simp
  have e: "length (snd early) \<le> length p" if "read_trail n c p = Inl early" for n c p early
    using t [of n c p] that by simp
  have d: "length (snd (utf_traits_decode p)) < length p" if "p \<noteq> []" for p
    using that
    by (cases p)
       (auto simp: utf_traits_decode_def Let_def less_Suc_eq_le split: sum.split dest: r e)
  show ?thesis
    by (relation "measure (\<lambda>(how, p). length p)")
       (use d in \<open>auto dest: arg_cong [where f = snd]\<close>)
qed

declare conv_utf_to_utf.simps [simp del]

text \<open>
  The decoder of the program: the call in \<open>valid_utf8\<close> passes \<open>begin\<close> and \<open>end\<close> only,
  so \<open>how\<close> is \<open>default_method\<close>.
\<close>

definition utf_to_utf_char32 :: "string \<Rightarrow> nat list option" where
  "utf_to_utf_char32 str = conv_utf_to_utf default_method str"

text \<open>
  \<open>valid_utf8\<close>: false when the conversion throws \<open>conversion_error\<close>, true when it
  returns. The functions of the session take the decoder as their first argument, so
  that what they do is stated for every decoder; the program runs them with
  \<open>utf_to_utf_char32\<close>.
\<close>

definition valid_utf8 :: "(string \<Rightarrow> nat list option) \<Rightarrow> string \<Rightarrow> bool" where
  "valid_utf8 utf_to_utf str = (case utf_to_utf str of None \<Rightarrow> False | Some _ \<Rightarrow> True)"

subsection \<open>Session\<close>

definition handle_subscribe :: "int \<Rightarrow> session \<Rightarrow> object \<Rightarrow> broker \<Rightarrow> fault + broker" where
  "handle_subscribe cache_size self cmd b =
     (case at_string cmd ''topic'' of
        Inl e \<Rightarrow> Inl e
      | Inr topic \<Rightarrow>
          (let b1 = b\<lparr>topics := (topics b)(topic \<mapsto> List.insert self (subscribers b topic)),
                      topics_rev :=
                        (topics_rev b)(self \<mapsto> List.insert topic (subscriptions b self))\<rparr>
           in case (case map_of cmd ''last_seen'' of
                      None \<Rightarrow> Inr (- 1)
                    | Some v \<Rightarrow>
                        (case as_int64 v of Inl e \<Rightarrow> Inl e | Inr i \<Rightarrow> Inr (to_int32 i))) of
                Inl e \<Rightarrow> Inl e
              | Inr last_seen \<Rightarrow>
                  (let b2 = send_success self b1
                   in case (if contains cmd ''cache'' then at_bool cmd ''cache''
                            else Inr True) of
                        Inl e \<Rightarrow> Inl e
                      | Inr want_cache \<Rightarrow>
                          if want_cache then send_cached cache_size self topic last_seen b2
                          else Inr b2)))"

definition handle_unsubscribe :: "session \<Rightarrow> object \<Rightarrow> broker \<Rightarrow> fault + broker" where
  "handle_unsubscribe self cmd b =
     (case at_string cmd ''topic'' of
        Inl e \<Rightarrow> Inl e
      | Inr topic \<Rightarrow>
          Inr (send_success self
            (b\<lparr>topics := (topics b)(topic \<mapsto> removeAll self (subscribers b topic)),
               topics_rev :=
                 (topics_rev b)(self \<mapsto> removeAll topic (subscriptions b self))\<rparr>)))"

text \<open>
  \<open>handle_send\<close> takes \<open>cmd\<close> by reference and stamps it in place, so the stamped
  object is part of the result. \<open>rnd\<close> is the raw output of the random engine for this
  call; \<open>uniform_int_distribution<size_t>(0, n - 1)\<close> turns it into a position below
  \<open>n\<close>, here \<open>rnd mod n\<close>, so that every position is the outcome of some draw.
\<close>

definition handle_send ::
  "int \<Rightarrow> nat \<Rightarrow> session \<Rightarrow> object \<Rightarrow> broker \<Rightarrow> fault + (object \<times> broker)" where
  "handle_send cache_size rnd self cmd b =
     (case at_string cmd ''topic'' of
        Inl e \<Rightarrow> Inl e
      | Inr topic \<Rightarrow>
     (case at_string cmd ''delivery'' of
        Inl e \<Rightarrow> Inl e
      | Inr delivery \<Rightarrow>
     (case (if contains cmd ''cache'' then at_bool cmd ''cache'' else Inr True) of
        Inl e \<Rightarrow> Inl e
      | Inr do_cache \<Rightarrow>
          (let idx = next_index b topic
           in if idx = INT_MAX then Inl SignedOverflow
              else
                (let b1 = b\<lparr>indexs := (indexs b)(topic \<mapsto> idx + 1)\<rparr>;
                     cmd' = AList.update ''index'' (JInt64 idx) cmd;
                     subs = subscribers b1 topic;
                     b2 = b1\<lparr>topics := (topics b1)(topic \<mapsto> subs)\<rparr>;
                     recipients =
                       (if delivery = ''all'' then subs
                        else if subs \<noteq> [] then [subs ! (rnd mod length subs)]
                        else []);
                     do_cache' =
                       (if delivery = ''all'' then do_cache
                        else if subs \<noteq> [] then False
                        else do_cache)
                 in case (if do_cache'
                          then (case trim_cache cache_size (cache_of b2 topic @ [cmd']) of
                                  Inl e \<Rightarrow> Inl e
                                | Inr q \<Rightarrow> Inr (b2\<lparr>caches := (caches b2)(topic \<mapsto> q)\<rparr>))
                          else Inr b2) of
                      Inl e \<Rightarrow> Inl e
                    | Inr b3 \<Rightarrow>
                        Inr (cmd', send_success self
                                     (fold (\<lambda>s. send_cmd s cmd') recipients b3)))))))"

definition handle_command ::
  "int \<Rightarrow> nat \<Rightarrow> session \<Rightarrow> object \<Rightarrow> broker \<Rightarrow> fault + broker" where
  "handle_command cache_size rnd self cmd b =
     (case at_string cmd ''command'' of
        Inl e \<Rightarrow> Inl e
      | Inr c \<Rightarrow>
          if c = ''subscribe'' then handle_subscribe cache_size self cmd b
          else if c = ''unsubscribe'' then handle_unsubscribe self cmd b
          else (case handle_send cache_size rnd self cmd b of
                  Inl e \<Rightarrow> Inl e
                | Inr (_, b') \<Rightarrow> Inr b'))"

text \<open>
  \<open>cleanup\<close>: the session leaves the forward set of every topic of its reverse set,
  then its reverse entry is erased. Closing the socket changes nothing the model holds.
\<close>

definition cleanup :: "session \<Rightarrow> broker \<Rightarrow> broker" where
  "cleanup self b =
     (case topics_rev b self of
        None \<Rightarrow> b
      | Some ts \<Rightarrow>
          b\<lparr>topics :=
              fold (\<lambda>t tp. tp(t \<mapsto> removeAll self (case tp t of None \<Rightarrow> [] | Some ss \<Rightarrow> ss)))
                ts (topics b),
            topics_rev := (topics_rev b)(self := None)\<rparr>)"

text \<open>
  One completion of \<open>async_read_until\<close>: a transport error, or the bytes of a record up
  to its line feed. \<open>Reading\<close> means \<open>do_read\<close> was called again, \<open>Closed\<close> that
  \<open>cleanup\<close> ran instead. \<open>parse\<close> (Boost.JSON's parser, \<open>None\<close> on a parse error)
  is a parameter.
\<close>

datatype input = ReadError | Line string

datatype session_state = Reading | Closed

definition strip_cr :: "string \<Rightarrow> string" where
  "strip_cr line = (if line \<noteq> [] \<and> last line = CHR 0x0D then butlast line else line)"

definition on_read ::
  "(string \<Rightarrow> nat list option) \<Rightarrow> (string \<Rightarrow> json option) \<Rightarrow> int \<Rightarrow> nat \<Rightarrow> session \<Rightarrow> input \<Rightarrow> broker
     \<Rightarrow> fault + (session_state \<times> broker)" where
  "on_read utf_to_utf parse cache_size rnd self inp b =
     (case inp of
        ReadError \<Rightarrow> Inr (Closed, cleanup self b)
      | Line raw \<Rightarrow>
          (let line = strip_cr raw
           in if line = ''quit'' then Inr (Closed, cleanup self b)
              else if line = [] then Inr (Reading, b)
              else if \<not> valid_utf8 utf_to_utf line
                then Inr (Reading, send_failure self ''Could not decode input as UTF-8'' b)
              else
                (case parse line of
                   None \<Rightarrow> Inr (Reading, send_failure self ''Could not parse json'' b)
                 | Some val \<Rightarrow>
                     (case val of
                        JObject obj \<Rightarrow>
                          if \<not> verify_command obj
                          then Inr (Reading, send_failure self ''Malformed json message'' b)
                          else (case handle_command cache_size rnd self obj b of
                                  Inl e \<Rightarrow> Inl e
                                | Inr b' \<Rightarrow> Inr (Reading, b'))
                      | _ \<Rightarrow> Inr (Reading, send_failure self ''Malformed json message'' b)))))"

text \<open>
  The broker runs on one thread: the completions are handled one after the other, each
  to its end. An event names the session whose read completed, what it read, and the
  random engine's output should the handler draw.
\<close>

type_synonym event = "session \<times> input \<times> nat"

fun run ::
  "(string \<Rightarrow> nat list option) \<Rightarrow> (string \<Rightarrow> json option) \<Rightarrow> int \<Rightarrow> event list \<Rightarrow> broker \<Rightarrow> fault + broker" where
  "run utf_to_utf parse cache_size [] b = Inr b"
| "run utf_to_utf parse cache_size ((self, inp, rnd) # evs) b =
     (case on_read utf_to_utf parse cache_size rnd self inp b of
        Inl e \<Rightarrow> Inl e
      | Inr (_, b') \<Rightarrow> run utf_to_utf parse cache_size evs b')"

subsection \<open>Command line\<close>

text \<open>
  \<open>std::stoi\<close> belongs to the standard library; this is its behaviour in base 10 as the
  C++ standard gives it through \<open>strtol\<close>: leading white space is skipped, a sign is
  optional, the longest run of digits is converted and what follows is ignored; no digit
  gives \<open>invalid_argument\<close>, a value outside \<open>int\<close> gives \<open>out_of_range\<close>.
\<close>

definition isspace :: "char \<Rightarrow> bool" where
  "isspace c = (c \<in> set [CHR '' '', CHR 0x09, CHR 0x0A, CHR 0x0B, CHR 0x0C, CHR 0x0D])"

definition isdigit :: "char \<Rightarrow> bool" where
  "isdigit c = (c \<in> set ''0123456789'')"

definition digits_value :: "string \<Rightarrow> int" where
  "digits_value ds = foldl (\<lambda>acc c. 10 * acc + (int (of_char c) - 48)) 0 ds"

definition stoi :: "string \<Rightarrow> fault + int" where
  "stoi str =
     (let s1 = dropWhile isspace str;
          neg = (s1 \<noteq> [] \<and> hd s1 = CHR ''-'');
          s2 = (if s1 \<noteq> [] \<and> (hd s1 = CHR ''-'' \<or> hd s1 = CHR ''+'') then tl s1 else s1);
          ds = takeWhile isdigit s2;
          v = (if neg then - digits_value ds else digits_value ds)
      in if ds = [] then Inl InvalidArgument
         else if v < - 2147483648 \<or> v > INT_MAX then Inl OutOfRange
         else Inr v)"

definition DEFAULT_PORT :: int where
  "DEFAULT_PORT = 7000"

definition DEFAULT_CACHE_SIZE :: int where
  "DEFAULT_CACHE_SIZE = 100"

definition usage :: "string list" where
  "usage =
     [''Usage: aiomemq <port> <cache_size>'',
      ''  <port>       - optional, default 7000'',
      ''  <cache_size> - optional, default 100'']"

text \<open>
  How \<open>main\<close> ends or goes on: it returns a status after writing lines to standard
  error, or an exception leaves it uncaught (\<open>std::terminate\<close>), or the server is
  built on a port (\<open>static_cast<uint16_t>\<close>) with \<open>cache_size\<close> set and the event loop
  runs. \<open>argv\<close> holds the program name first, so \<open>argc = length argv\<close>.
\<close>

datatype outcome =
    Exit int "string list"
  | Uncaught fault
  | Serving int int

definition main :: "string list \<Rightarrow> outcome" where
  "main argv =
     (let argc = length argv
      in if argc \<noteq> 1 \<and> argc \<noteq> 2 \<and> argc \<noteq> 3 then Exit 1 usage
         else
           (case (if argc \<ge> 2 then stoi (argv ! 1) else Inr DEFAULT_PORT) of
              Inl e \<Rightarrow> Uncaught e
            | Inr port \<Rightarrow>
                (case (if argc = 3 then stoi (argv ! 2) else Inr DEFAULT_CACHE_SIZE) of
                   Inl e \<Rightarrow> Uncaught e
                 | Inr cache_size \<Rightarrow> Serving (port mod 65536) cache_size)))"

section \<open>Notions the statements use\<close>

text \<open>The index and the delivery mode a message object carries.\<close>

definition index_of :: "object \<Rightarrow> int" where
  "index_of m = (case map_of m ''index'' of Some (JInt64 i) \<Rightarrow> i | _ \<Rightarrow> 0)"

definition delivery_of :: "object \<Rightarrow> json" where
  "delivery_of m = (case map_of m ''delivery'' of Some d \<Rightarrow> d | None \<Rightarrow> JNull)"

text \<open>
  A cache entry as \<open>handle_send\<close> leaves it: an \<open>int64\<close> member \<open>index\<close> holding a
  non-negative \<open>int\<close>, and a member \<open>delivery\<close>.
\<close>

definition stamped :: "object \<Rightarrow> bool" where
  "stamped m =
     (case map_of m ''index'' of
        Some (JInt64 i) \<Rightarrow> 0 \<le> i \<and> i \<le> INT_MAX \<and> map_of m ''delivery'' \<noteq> None
      | _ \<Rightarrow> False)"

text \<open>
  The state of the caches and counters every run keeps: each counter is a non-negative
  \<open>int\<close>, each topic's cache holds stamped entries whose indices are below the topic's
  counter and strictly increase from front to back.
\<close>

definition cache_inv :: "broker \<Rightarrow> bool" where
  "cache_inv b =
     (\<forall>t. 0 \<le> next_index b t \<and> next_index b t \<le> INT_MAX \<and>
          (\<forall>m \<in> set (cache_of b t). stamped m \<and> index_of m < next_index b t) \<and>
          sorted_wrt (<) (map index_of (cache_of b t)))"

text \<open>The two directions of the registry agree.\<close>

definition registry_consistent :: "broker \<Rightarrow> bool" where
  "registry_consistent b =
     (\<forall>t s. (s \<in> set (subscribers b t)) = (t \<in> set (subscriptions b s)))"

text \<open>
  The command a read completion hands to \<open>handle_command\<close>, if it gets that far, and
  the completions of a run that are send commands to a topic.
\<close>

definition record_command ::
  "(string \<Rightarrow> nat list option) \<Rightarrow> (string \<Rightarrow> json option) \<Rightarrow> input \<Rightarrow> object option" where
  "record_command utf_to_utf parse inp =
     (case inp of
        ReadError \<Rightarrow> None
      | Line raw \<Rightarrow>
          (let line = strip_cr raw
           in if line = ''quit'' \<or> line = [] \<or> \<not> valid_utf8 utf_to_utf line then None
              else (case parse line of
                      Some (JObject obj) \<Rightarrow> if verify_command obj then Some obj else None
                    | _ \<Rightarrow> None)))"

definition is_send_to :: "string \<Rightarrow> object \<Rightarrow> bool" where
  "is_send_to t obj =
     (map_of obj ''command'' = Some (JString ''send'') \<and>
      map_of obj ''topic'' = Some (JString t))"

definition send_event ::
  "(string \<Rightarrow> nat list option) \<Rightarrow> (string \<Rightarrow> json option) \<Rightarrow> string \<Rightarrow> event \<Rightarrow> bool" where
  "send_event utf_to_utf parse t ev =
     (case record_command utf_to_utf parse (fst (snd ev)) of
        None \<Rightarrow> False
      | Some obj \<Rightarrow> is_send_to t obj)"

definition sends_to ::
  "(string \<Rightarrow> nat list option) \<Rightarrow> (string \<Rightarrow> json option) \<Rightarrow> string \<Rightarrow> event list \<Rightarrow> nat" where
  "sends_to utf_to_utf parse t evs = length (filter (send_event utf_to_utf parse t) evs)"

text \<open>
  The indices \<open>handle_send\<close> stamps on the send commands to a topic along a run, in the
  order the commands are handled: each is read off the object \<open>handle_send\<close> returns.
\<close>

fun assigned ::
  "(string \<Rightarrow> nat list option) \<Rightarrow> (string \<Rightarrow> json option) \<Rightarrow> int \<Rightarrow> string \<Rightarrow> event list \<Rightarrow> broker
     \<Rightarrow> int list" where
  "assigned utf_to_utf parse cache_size t [] b = []"
| "assigned utf_to_utf parse cache_size t ((self, inp, rnd) # evs) b =
     (case on_read utf_to_utf parse cache_size rnd self inp b of
        Inl e \<Rightarrow> []
      | Inr (_, b') \<Rightarrow>
          (case record_command utf_to_utf parse inp of
             None \<Rightarrow> []
           | Some obj \<Rightarrow>
               if is_send_to t obj
               then (case handle_send cache_size rnd self obj b of
                       Inl e \<Rightarrow> []
                     | Inr (cmd', _) \<Rightarrow> [index_of cmd'])
               else [])
          @ assigned utf_to_utf parse cache_size t evs b')"

text \<open>
  The schema table of the specification, section 4.1: per command the fields, their
  types, which are required and which literals are allowed; unknown fields are rejected.
\<close>

definition field_is :: "object \<Rightarrow> string \<Rightarrow> kind \<Rightarrow> bool" where
  "field_is obj k kd = (case map_of obj k of None \<Rightarrow> False | Some v \<Rightarrow> kind_of v = kd)"

definition field_opt :: "object \<Rightarrow> string \<Rightarrow> kind \<Rightarrow> bool" where
  "field_opt obj k kd = (case map_of obj k of None \<Rightarrow> True | Some v \<Rightarrow> kind_of v = kd)"

definition schema_conforms :: "object \<Rightarrow> bool" where
  "schema_conforms obj =
     ((map_of obj ''command'' = Some (JString ''subscribe'') \<and>
       fst ` set obj \<subseteq> {''command'', ''topic'', ''last_seen'', ''cache''} \<and>
       field_is obj ''topic'' KString \<and> field_opt obj ''last_seen'' KInt64 \<and>
       field_opt obj ''cache'' KBool) \<or>
      (map_of obj ''command'' = Some (JString ''unsubscribe'') \<and>
       fst ` set obj \<subseteq> {''command'', ''topic''} \<and>
       field_is obj ''topic'' KString) \<or>
      (map_of obj ''command'' = Some (JString ''send'') \<and>
       fst ` set obj \<subseteq> {''command'', ''topic'', ''msg'', ''delivery'', ''cache''} \<and>
       field_is obj ''topic'' KString \<and> field_is obj ''msg'' KString \<and>
       (map_of obj ''delivery'' = Some (JString ''all'') \<or>
        map_of obj ''delivery'' = Some (JString ''one'')) \<and>
       field_opt obj ''cache'' KBool))"

subsection \<open>What the handlers compute\<close>

text \<open>
  The high-water mark a subscribe command carries, as \<open>handle_subscribe\<close> passes it on
  (narrowed to \<open>int\<close>, \<open>-1\<close> when absent), and whether a command asks for the cache
  (\<open>cache\<close> absent or true).
\<close>

definition last_seen_of :: "object \<Rightarrow> int" where
  "last_seen_of cmd = (case map_of cmd ''last_seen'' of Some (JInt64 v) \<Rightarrow> to_int32 v | _ \<Rightarrow> - 1)"

definition wants_cache :: "object \<Rightarrow> bool" where
  "wants_cache cmd = (map_of cmd ''cache'' \<noteq> Some (JBool False))"

text \<open>The cached messages a catch-up with mark \<open>k\<close> replays, and the ones it keeps.\<close>

definition unseen :: "int \<Rightarrow> object list \<Rightarrow> object list" where
  "unseen k q = filter (\<lambda>m. index_of m > k) q"

definition kept :: "int \<Rightarrow> object list \<Rightarrow> object list" where
  "kept k q = filter (\<lambda>m. index_of m \<le> k \<or> delivery_of m = JString ''all'') q"

text \<open>
  A send command with its index, the sessions a send goes to, and the state a send
  leaves when the cache of its topic becomes \<open>q'\<close> (\<open>None\<close>: the caches are untouched).
\<close>

definition stamp :: "object \<Rightarrow> int \<Rightarrow> object" where
  "stamp cmd i = AList.update ''index'' (JInt64 i) cmd"

definition recipients_of :: "nat \<Rightarrow> string \<Rightarrow> session list \<Rightarrow> session list" where
  "recipients_of rnd d subs =
     (if d = ''all'' then subs else if subs \<noteq> [] then [subs ! (rnd mod length subs)] else [])"

definition after_send ::
  "session \<Rightarrow> string \<Rightarrow> object \<Rightarrow> session list \<Rightarrow> object list option \<Rightarrow> broker \<Rightarrow> broker" where
  "after_send self t cmd' rs q' b =
     b\<lparr>topics := (topics b)(t \<mapsto> subscribers b t),
       caches := (case q' of None \<Rightarrow> caches b | Some q \<Rightarrow> (caches b)(t \<mapsto> q)),
       indexs := (indexs b)(t \<mapsto> next_index b t + 1),
       written := written b @ map (\<lambda>s. (s, cmd')) rs @ [(self, success)]\<rparr>"

text \<open>The registry after a subscribe, before anything is written.\<close>

definition registered :: "session \<Rightarrow> string \<Rightarrow> broker \<Rightarrow> broker" where
  "registered self t b =
     b\<lparr>topics := (topics b)(t \<mapsto> List.insert self (subscribers b t)),
       topics_rev := (topics_rev b)(self \<mapsto> List.insert t (subscriptions b self))\<rparr>"

subsection \<open>Sample records\<close>

text \<open>
  A few records as a client writes them, with the values Boost.JSON gives for them.
  \<open>sample_parse\<close> stands in for the parser where a statement is run on concrete input:
  it knows these texts (and the array \<open>[1]\<close>) and reports a parse error for the rest.
\<close>

definition send_all_text :: string where
  \<open>send_all_text = ''{"command":"send","topic":"t","msg":"hi","delivery":"all"}''\<close>

definition send_all :: object where
  "send_all =
     [(''command'', JString ''send''), (''topic'', JString ''t''), (''msg'', JString ''hi''),
      (''delivery'', JString ''all'')]"

definition send_one_text :: string where
  \<open>send_one_text = ''{"command":"send","topic":"t","msg":"x","delivery":"one"}''\<close>

definition send_one :: object where
  "send_one =
     [(''command'', JString ''send''), (''topic'', JString ''t''), (''msg'', JString ''x''),
      (''delivery'', JString ''one'')]"

definition subscribe_text :: string where
  \<open>subscribe_text = ''{"command":"subscribe","topic":"t"}''\<close>

definition subscribe :: object where
  "subscribe = [(''command'', JString ''subscribe''), (''topic'', JString ''t'')]"

definition subscribe_far_text :: string where
  \<open>subscribe_far_text = ''{"command":"subscribe","topic":"t","last_seen":4294967296}''\<close>

definition subscribe_far :: object where
  "subscribe_far =
     [(''command'', JString ''subscribe''), (''topic'', JString ''t''),
      (''last_seen'', JInt64 4294967296)]"

definition unsubscribe_text :: string where
  \<open>unsubscribe_text = ''{"command":"unsubscribe","topic":"t"}''\<close>

definition unsubscribe :: object where
  "unsubscribe = [(''command'', JString ''unsubscribe''), (''topic'', JString ''t'')]"

definition sample_parse :: "string \<Rightarrow> json option" where
  "sample_parse line =
     (if line = send_all_text then Some (JObject send_all)
      else if line = send_one_text then Some (JObject send_one)
      else if line = subscribe_text then Some (JObject subscribe)
      else if line = subscribe_far_text then Some (JObject subscribe_far)
      else if line = unsubscribe_text then Some (JObject unsubscribe)
      else if line = ''[1]'' then Some (JArray [JInt64 1])
      else None)"

text \<open>
  The state after session 7 has sent, to a topic nobody subscribes to, the sample
  \<open>all\<close> message, the sample \<open>one\<close> message and the \<open>all\<close> message again.
\<close>

definition three_sent :: broker where
  "three_sent =
     \<lparr>topics = [''t'' \<mapsto> []], topics_rev = Map.empty,
      caches = [''t'' \<mapsto> [stamp send_all 0, stamp send_one 1, stamp send_all 2]],
      indexs = [''t'' \<mapsto> 3],
      written = [(7, success), (7, success), (7, success)]\<rparr>"

text \<open>The state after session 8 has subscribed to the topic, on the empty broker.\<close>

definition one_subscribed :: broker where
  "one_subscribed =
     \<lparr>topics = [''t'' \<mapsto> [8]], topics_rev = [8 \<mapsto> [''t'']], caches = [''t'' \<mapsto> []],
      indexs = Map.empty, written = [(8, success)]\<rparr>"

section \<open>Properties\<close>

subsection \<open>Narrowing and trimming\<close>

lemma to_int32_id: "- 2147483648 \<le> x \<Longrightarrow> x \<le> 2147483647 \<Longrightarrow> to_int32 x = x"
  by (simp add: to_int32_def)

lemma trim_cache_nonneg:
  "0 \<le> cache_size \<Longrightarrow> length q < 2147483648 \<Longrightarrow>
   trim_cache cache_size q = Inr (drop (length q - nat cache_size) q)"
proof (induction q)
  case Nil
  then show ?case by (simp add: trim_cache.simps to_int32_def)
next
  case (Cons m q)
  show ?case
  proof (cases "int (length (m # q)) > cache_size")
    case True
    then have "trim_cache cache_size (m # q) = trim_cache cache_size q"
      using Cons.prems by (subst trim_cache.simps) (simp add: to_int32_id)
    moreover have "Suc (length q) - nat cache_size = Suc (length q - nat cache_size)"
      using True Cons.prems by simp
    ultimately show ?thesis using Cons by simp
  next
    case False
    then show ?thesis
      using Cons.prems by (subst trim_cache.simps) (simp add: to_int32_id)
  qed
qed

lemma trim_cache_negative:
  "cache_size < 0 \<Longrightarrow> length q < 2147483648 \<Longrightarrow> trim_cache cache_size q = Inl PopFrontEmpty"
proof (induction q)
  case Nil
  then show ?case by (simp add: trim_cache.simps to_int32_def)
next
  case (Cons m q)
  then show ?case by (subst trim_cache.simps) (simp add: to_int32_id)
qed

lemma trim_cache_drop: "trim_cache cache_size q = Inr q' \<Longrightarrow> \<exists>n. q' = drop n q"
proof (induction cache_size q rule: trim_cache.induct)
  case (1 cache_size q)
  show ?case
  proof (cases "to_int32 (int (length q)) > cache_size")
    case False
    with "1.prems" have "q' = drop 0 q" by (simp add: trim_cache.simps)
    then show ?thesis by blast
  next
    case True
    show ?thesis
    proof (cases q)
      case Nil
      with True "1.prems" show ?thesis by (simp add: trim_cache.simps)
    next
      case (Cons m r)
      with True "1.prems" have "trim_cache cache_size r = Inr q'"
        by (subst (asm) trim_cache.simps) simp
      with "1.IH" True Cons obtain n where "q' = drop n r" by blast
      then have "q' = drop (Suc n) q" using Cons by simp
      then show ?thesis by blast
    qed
  qed
qed


subsection \<open>Schema validation is the schema table\<close>

lemma known_keys_iff: "known_keys t obj = (fst ` set obj \<subseteq> fst ` set t)"
  by (induction obj) (force simp: map_of_eq_None_iff split: if_splits)+

lemma keys_subscribe:
  "fst ` set template_subscribe = {''command'', ''topic'', ''last_seen'', ''cache''}"
  by (simp add: template_subscribe_def)

lemma keys_unsubscribe: "fst ` set template_unsubscribe = {''command'', ''topic''}"
  by (simp add: template_unsubscribe_def)

lemma keys_send:
  "fst ` set template_send = {''command'', ''topic'', ''msg'', ''delivery'', ''cache''}"
  by (simp add: template_send_def)

lemma fields_match_subscribe:
  "fields_match template_subscribe obj =
     (field_is obj ''command'' KString \<and> field_is obj ''topic'' KString \<and>
      field_opt obj ''last_seen'' KInt64 \<and> field_opt obj ''cache'' KBool)"
  by (auto simp: template_subscribe_def field_is_def field_opt_def split: option.split)

lemma fields_match_unsubscribe:
  "fields_match template_unsubscribe obj =
     (field_is obj ''command'' KString \<and> field_is obj ''topic'' KString)"
  by (auto simp: template_unsubscribe_def field_is_def split: option.split)

lemma fields_match_send:
  "fields_match template_send obj =
     (field_is obj ''command'' KString \<and> field_is obj ''topic'' KString \<and>
      field_is obj ''msg'' KString \<and>
      (map_of obj ''delivery'' = Some (JString ''all'') \<or>
       map_of obj ''delivery'' = Some (JString ''one'')) \<and>
      field_opt obj ''cache'' KBool)"
proof (cases "map_of obj ''delivery''")
  case None
  then show ?thesis
    by (auto simp: template_send_def field_is_def field_opt_def split: option.split)
next
  case (Some v)
  then show ?thesis
    by (cases "v = JString ''all'' \<or> v = JString ''one''")
       (auto simp: template_send_def field_is_def field_opt_def split: option.split)
qed


lemma verify_command_schema: "verify_command obj = schema_conforms obj"
proof (cases "map_of obj ''command''")
  case None
  then show ?thesis by (simp add: verify_command_def schema_conforms_def)
next
  case (Some v)
  show ?thesis
  proof (cases v)
    case (JString c)
    with Some have cmd: "map_of obj ''command'' = Some (JString c)" by simp
    then have fld: "field_is obj ''command'' KString" by (simp add: field_is_def)
    show ?thesis
      using cmd fld
      by (simp add: verify_command_def schema_conforms_def template_match_def known_keys_iff
          keys_subscribe keys_unsubscribe keys_send
          fields_match_subscribe fields_match_unsubscribe fields_match_send)
  qed (use Some in \<open>simp_all add: verify_command_def schema_conforms_def\<close>)
qed


subsection \<open>The codec\<close>

text \<open>Under \<open>skip\<close> the conversion returns on every byte string.\<close>

lemma conv_utf_to_utf_skip: "\<exists>result. conv_utf_to_utf skip p = Some result"
proof (induction skip p rule: conv_utf_to_utf.induct)
  case (1 p)
  show ?case
  proof (cases "p = []")
    case True
    then show ?thesis by (simp add: conv_utf_to_utf.simps)
  next
    case False
    obtain c p' where d: "utf_traits_decode p = (c, p')" by (cases "utf_traits_decode p")
    show ?thesis
    proof (cases "c = illegal \<or> c = incomplete")
      case True
      with 1(1) [OF False d [symmetric]] False d show ?thesis
        by (subst conv_utf_to_utf.simps) auto
    next
      case f: False
      with 1(2) [OF False d [symmetric]] False d show ?thesis
        by (subst conv_utf_to_utf.simps) auto
    qed
  qed
qed

lemma valid_utf8_char32: "valid_utf8 utf_to_utf_char32 str"
  using conv_utf_to_utf_skip [of str]
  by (auto simp: valid_utf8_def utf_to_utf_char32_def default_method_def)

lemma conv_utf_to_utf_stop_FF: "conv_utf_to_utf stop [CHR 0xFF] = None"
  by (simp add: conv_utf_to_utf.simps utf_traits_decode_def trail_length_def)

text \<open>
  The replies of \<open>on_read\<close> to a record that is neither empty nor \<open>quit\<close>, for every
  decoder and parser: the first failed check decides, one reply is written, and the
  session reads on.
\<close>

lemma on_read_replies:
  assumes "strip_cr raw = line" and "line \<noteq> []" and "line \<noteq> ''quit''"
  shows "(\<not> valid_utf8 decode line \<longrightarrow>
           on_read decode parse cache_size rnd self (Line raw) b =
             Inr (Reading,
                  b\<lparr>written := written b @
                     [(self, [(''success'', JBool False),
                              (''reason'', JString ''Could not decode input as UTF-8'')])]\<rparr>)) \<and>
         (valid_utf8 decode line \<and> parse line = None \<longrightarrow>
           on_read decode parse cache_size rnd self (Line raw) b =
             Inr (Reading,
                  b\<lparr>written := written b @
                     [(self, [(''success'', JBool False),
                              (''reason'', JString ''Could not parse json'')])]\<rparr>)) \<and>
         (valid_utf8 decode line \<and> parse line = Some val \<and>
            (\<forall>obj. val = JObject obj \<longrightarrow> \<not> schema_conforms obj) \<longrightarrow>
           on_read decode parse cache_size rnd self (Line raw) b =
             Inr (Reading,
                  b\<lparr>written := written b @
                     [(self, [(''success'', JBool False),
                              (''reason'', JString ''Malformed json message'')])]\<rparr>)) \<and>
         (valid_utf8 decode line \<and> parse line = Some (JObject cmd) \<and> schema_conforms cmd \<longrightarrow>
           on_read decode parse cache_size rnd self (Line raw) b =
             (case handle_command cache_size rnd self cmd b of
                Inl e \<Rightarrow> Inl e
              | Inr b' \<Rightarrow> Inr (Reading, b')))"
  using assms
  by (cases val)
     (simp_all add: on_read_def send_failure_def send_cmd_def failure_def verify_command_schema)

lemma sample_parse_other: "sample_parse ''not-json'' = None"
  by (simp add: sample_parse_def send_all_text_def send_one_text_def subscribe_text_def
      subscribe_far_text_def unsubscribe_text_def)

lemma sample_parse_array: "sample_parse ''[1]'' = Some (JArray [JInt64 1])"
  by (simp add: sample_parse_def send_all_text_def send_one_text_def subscribe_text_def
      subscribe_far_text_def unsubscribe_text_def)

subsection \<open>Capacity and command line\<close>

lemma stoi_minus_one: "stoi ''-1'' = Inr (- 1)"
  by (simp add: stoi_def isspace_def isdigit_def digits_value_def INT_MAX_def)

lemma stoi_7000: "stoi ''7000'' = Inr 7000"
  by (simp add: stoi_def isspace_def isdigit_def digits_value_def INT_MAX_def)

lemma stoi_abc: "stoi ''abc'' = Inl InvalidArgument"
  by (simp add: stoi_def isspace_def isdigit_def)

lemma handle_send_append_negative:
  assumes "cache_size < 0"
    and "at_string cmd ''topic'' = Inr t"
    and "at_string cmd ''delivery'' = Inr d"
    and "(if contains cmd ''cache'' then at_bool cmd ''cache'' else Inr True) = Inr True"
    and "d = ''all'' \<or> subscribers b t = []"
    and "next_index b t \<noteq> INT_MAX"
    and "length (cache_of b t) < 2147483647"
  shows "handle_send cache_size rnd self cmd b = Inl PopFrontEmpty"
proof -
  have "trim_cache cache_size (cache_of b t @ [AList.update ''index'' (JInt64 (next_index b t)) cmd])
          = Inl PopFrontEmpty"
    using assms(1,7) by (intro trim_cache_negative) simp_all
  then show ?thesis
    using assms
    by (auto simp: handle_send_def Let_def subscribers_def cache_of_def)
qed

subsection \<open>Reading fields\<close>

lemma stamped_index: "stamped m \<Longrightarrow> at_int64 m ''index'' = Inr (index_of m)"
  by (auto simp: stamped_def at_int64_def at_def index_of_def split: option.splits json.splits)

lemma stamped_range: "stamped m \<Longrightarrow> 0 \<le> index_of m \<and> index_of m \<le> 2147483647"
  by (auto simp: stamped_def index_of_def INT_MAX_def split: option.splits json.splits)

lemma stamped_delivery: "stamped m \<Longrightarrow> at m ''delivery'' = Inr (delivery_of m)"
  by (auto simp: stamped_def at_def delivery_of_def split: option.splits json.splits)

lemma field_is_string: "field_is obj k KString \<Longrightarrow> \<exists>s. map_of obj k = Some (JString s)"
  by (cases "map_of obj k"; cases "the (map_of obj k)") (auto simp: field_is_def)

lemma at_string_field: "map_of obj k = Some (JString s) \<Longrightarrow> at_string obj k = Inr s"
  by (simp add: at_string_def at_def)

lemma cache_flag:
  "field_opt cmd ''cache'' KBool \<Longrightarrow>
   (if contains cmd ''cache'' then at_bool cmd ''cache'' else Inr True) = Inr (wants_cache cmd)"
  by (cases "map_of cmd ''cache''"; cases "the (map_of cmd ''cache'')")
     (auto simp: field_opt_def contains_def at_bool_def at_def wants_cache_def)

lemma last_seen_field:
  "field_opt cmd ''last_seen'' KInt64 \<Longrightarrow>
   (case map_of cmd ''last_seen'' of
      None \<Rightarrow> Inr (- 1)
    | Some v \<Rightarrow> (case as_int64 v of Inl e \<Rightarrow> Inl e | Inr i \<Rightarrow> Inr (to_int32 i))) =
   Inr (last_seen_of cmd)"
  by (cases "map_of cmd ''last_seen''"; cases "the (map_of cmd ''last_seen'')")
     (auto simp: field_opt_def last_seen_of_def)

subsection \<open>Catch-up\<close>

lemma replay_stamped:
  "\<forall>m \<in> set q. stamped m \<Longrightarrow>
   replay s k q b = Inr (b\<lparr>written := written b @ map (Pair s) (unseen k q)\<rparr>)"
proof (induction q arbitrary: b)
  case Nil
  then show ?case by (simp add: unseen_def)
next
  case (Cons m q)
  then show ?case by (simp add: stamped_index unseen_def send_cmd_def)
qed

lemma rebuild_stamped: "\<forall>m \<in> set q. stamped m \<Longrightarrow> rebuild k q = Inr (kept k q)"
proof (induction q)
  case Nil
  then show ?case by (simp add: kept_def)
next
  case (Cons m q)
  then have m: "stamped m" and ih: "rebuild k q = Inr (kept k q)" by simp_all
  from m have "to_int32 (index_of m) = index_of m"
    using stamped_range [OF m] by (simp add: to_int32_id)
  then show ?case
    using m ih by (simp add: stamped_index stamped_delivery kept_def)
qed

lemma send_cached_stamped:
  assumes "\<forall>m \<in> set (cache_of b t). stamped m"
  shows "send_cached cache_size s t k b =
           (case trim_cache cache_size (kept k (cache_of b t)) of
              Inl e \<Rightarrow> Inl e
            | Inr q' \<Rightarrow>
                Inr (b\<lparr>caches := (caches b)(t \<mapsto> q'),
                       written := written b @ map (Pair s) (unseen k (cache_of b t))\<rparr>))"
  using assms
  by (simp add: send_cached_def Let_def replay_stamped rebuild_stamped split: sum.split)

lemma length_kept: "length (kept k q) \<le> length q"
  by (simp add: kept_def)

lemma registered_sel [simp]:
  "caches (registered s t b) = caches b"
  "indexs (registered s t b) = indexs b"
  "written (registered s t b) = written b"
  by (simp_all add: registered_def)

lemma handle_subscribe_cases:
  assumes "map_of cmd ''topic'' = Some (JString t)"
    and "field_opt cmd ''last_seen'' KInt64"
    and "field_opt cmd ''cache'' KBool"
    and "\<forall>m \<in> set (cache_of b t). stamped m"
  shows "handle_subscribe cache_size self cmd b =
           (if wants_cache cmd
            then (case trim_cache cache_size (kept (last_seen_of cmd) (cache_of b t)) of
                    Inl e \<Rightarrow> Inl e
                  | Inr q' \<Rightarrow>
                      Inr ((registered self t b)
                            \<lparr>caches := (caches b)(t \<mapsto> q'),
                             written := written b @ (self, success) #
                               map (Pair self) (unseen (last_seen_of cmd) (cache_of b t))\<rparr>))
            else Inr ((registered self t b)\<lparr>written := written b @ [(self, success)]\<rparr>))"
proof -
  let ?b2 = "send_success self (registered self t b)"
  have c: "cache_of ?b2 t = cache_of b t"
    by (simp add: cache_of_def send_success_def send_cmd_def registered_def)
  have "handle_subscribe cache_size self cmd b =
          (if wants_cache cmd then send_cached cache_size self t (last_seen_of cmd) ?b2
           else Inr ?b2)"
    using assms(1-3)
    by (simp add: handle_subscribe_def at_string_field last_seen_field cache_flag Let_def
        registered_def)
  moreover have "send_cached cache_size self t (last_seen_of cmd) ?b2 =
           (case trim_cache cache_size (kept (last_seen_of cmd) (cache_of b t)) of
              Inl e \<Rightarrow> Inl e
            | Inr q' \<Rightarrow>
                Inr ((registered self t b)
                      \<lparr>caches := (caches b)(t \<mapsto> q'),
                       written := written b @ (self, success) #
                         map (Pair self) (unseen (last_seen_of cmd) (cache_of b t))\<rparr>))"
    using assms(4) c
    by (subst send_cached_stamped)
       (simp_all add: send_success_def send_cmd_def registered_def split: sum.split)
  ultimately show ?thesis
    by (simp add: send_success_def send_cmd_def)
qed

subsection \<open>Sending\<close>

lemma fold_send_cmd:
  "fold (\<lambda>s. send_cmd s m) rs b = b\<lparr>written := written b @ map (\<lambda>s. (s, m)) rs\<rparr>"
  by (induction rs arbitrary: b) (simp_all add: send_cmd_def)

lemma subscribers_upd [simp]:
  "subscribers (b\<lparr>indexs := i\<rparr>) = subscribers b"
  "subscribers (b\<lparr>caches := c\<rparr>) = subscribers b"
  "subscribers (b\<lparr>written := w\<rparr>) = subscribers b"
  "subscribers (b\<lparr>topics_rev := r\<rparr>) = subscribers b"
  by (simp_all add: subscribers_def fun_eq_iff)

lemma subscriptions_upd [simp]:
  "subscriptions (b\<lparr>indexs := i\<rparr>) = subscriptions b"
  "subscriptions (b\<lparr>caches := c\<rparr>) = subscriptions b"
  "subscriptions (b\<lparr>written := w\<rparr>) = subscriptions b"
  "subscriptions (b\<lparr>topics := tp\<rparr>) = subscriptions b"
  by (simp_all add: subscriptions_def fun_eq_iff)

lemma cache_of_upd [simp]:
  "cache_of (b\<lparr>indexs := i\<rparr>) = cache_of b"
  "cache_of (b\<lparr>topics := tp\<rparr>) = cache_of b"
  "cache_of (b\<lparr>written := w\<rparr>) = cache_of b"
  "cache_of (b\<lparr>topics_rev := r\<rparr>) = cache_of b"
  by (simp_all add: cache_of_def fun_eq_iff)

lemma next_index_upd [simp]:
  "next_index (b\<lparr>caches := c\<rparr>) = next_index b"
  "next_index (b\<lparr>topics := tp\<rparr>) = next_index b"
  "next_index (b\<lparr>written := w\<rparr>) = next_index b"
  "next_index (b\<lparr>topics_rev := r\<rparr>) = next_index b"
  by (simp_all add: next_index_def fun_eq_iff)


lemma handle_send_cases:
  assumes "map_of cmd ''topic'' = Some (JString t)"
    and "map_of cmd ''delivery'' = Some (JString d)"
    and "field_opt cmd ''cache'' KBool"
  shows "handle_send cache_size rnd self cmd b =
           (if next_index b t = INT_MAX then Inl SignedOverflow
            else if wants_cache cmd \<and> (d = ''all'' \<or> subscribers b t = [])
            then (case trim_cache cache_size (cache_of b t @ [stamp cmd (next_index b t)]) of
                    Inl e \<Rightarrow> Inl e
                  | Inr q' \<Rightarrow>
                      Inr (stamp cmd (next_index b t),
                           after_send self t (stamp cmd (next_index b t))
                             (recipients_of rnd d (subscribers b t)) (Some q') b))
            else Inr (stamp cmd (next_index b t),
                      after_send self t (stamp cmd (next_index b t))
                        (recipients_of rnd d (subscribers b t)) None b))"
proof -
  note f = at_string_field [OF assms(1)] at_string_field [OF assms(2)] cache_flag [OF assms(3)]
  note u = handle_send_def f Let_def stamp_def recipients_of_def after_send_def fold_send_cmd
    send_success_def send_cmd_def
  show ?thesis
  proof (cases "next_index b t = INT_MAX")
    case True
    then show ?thesis by (simp add: handle_send_def f)
  next
    case idx: False
    show ?thesis
    proof (cases "wants_cache cmd")
      case w: False
      show ?thesis
      proof (cases "d = ''all''")
        case True
        with idx w show ?thesis by (simp add: u)
      next
        case d: False
        show ?thesis
        proof (cases "subscribers b t = []")
          case True
          with idx w d show ?thesis by (simp add: u)
        next
          case False
          with idx w d show ?thesis by (simp add: u)
        qed
      qed
    next
      case w: True
      show ?thesis
      proof (cases "d = ''all''")
        case True
        with idx w show ?thesis
          by (cases "trim_cache cache_size
                (cache_of b t @ [AList.update ''index'' (JInt64 (next_index b t)) cmd])")
             (simp_all add: u)
      next
        case d: False
        show ?thesis
        proof (cases "subscribers b t = []")
          case True
          with idx w d show ?thesis
            by (cases "trim_cache cache_size
                  (cache_of b t @ [AList.update ''index'' (JInt64 (next_index b t)) cmd])")
               (simp_all add: u)
        next
          case False
          with idx w d show ?thesis by (simp add: u)
        qed
      qed
    qed
  qed
qed


lemma after_send_sel [simp]:
  "topics_rev (after_send self t m rs q' b) = topics_rev b"
  "written (after_send self t m rs q' b) = written b @ map (\<lambda>s. (s, m)) rs @ [(self, success)]"
  "subscribers (after_send self t m rs q' b) u = subscribers b u"
  "subscriptions (after_send self t m rs q' b) s = subscriptions b s"
  "next_index (after_send self t m rs q' b) u =
     (if u = t then next_index b t + 1 else next_index b u)"
  "cache_of (after_send self t m rs None b) u = cache_of b u"
  "cache_of (after_send self t m rs (Some q) b) u = (if u = t then q else cache_of b u)"
  by (simp_all add: after_send_def subscribers_def subscriptions_def next_index_def cache_of_def)

lemma schema_send:
  assumes "verify_command cmd" and "map_of cmd ''command'' = Some (JString ''send'')"
  shows "field_is cmd ''topic'' KString"
    and "map_of cmd ''delivery'' = Some (JString ''all'') \<or>
         map_of cmd ''delivery'' = Some (JString ''one'')"
    and "field_opt cmd ''cache'' KBool"
    and "map_of cmd ''index'' = None"
proof -
  from assms have s: "fst ` set cmd \<subseteq> {''command'', ''topic'', ''msg'', ''delivery'', ''cache''}"
    "field_is cmd ''topic'' KString"
    "map_of cmd ''delivery'' = Some (JString ''all'') \<or>
     map_of cmd ''delivery'' = Some (JString ''one'')"
    "field_opt cmd ''cache'' KBool"
    by (simp_all add: verify_command_schema schema_conforms_def)
  from s(1) have "''index'' \<notin> fst ` set cmd" by auto
  then show "map_of cmd ''index'' = None" by (simp add: map_of_eq_None_iff)
  from s show "field_is cmd ''topic'' KString"
    "map_of cmd ''delivery'' = Some (JString ''all'') \<or>
     map_of cmd ''delivery'' = Some (JString ''one'')"
    "field_opt cmd ''cache'' KBool" by simp_all
qed

lemma stamp_fields:
  "map_of (stamp cmd i) ''index'' = Some (JInt64 i)"
  "k \<noteq> ''index'' \<Longrightarrow> map_of (stamp cmd i) k = map_of cmd k"
  by (simp_all add: stamp_def update_conv')

lemma index_of_stamp [simp]: "index_of (stamp cmd i) = i"
  by (simp add: index_of_def stamp_fields)

lemma delivery_of_stamp [simp]: "delivery_of (stamp cmd i) = delivery_of cmd"
  by (simp add: delivery_of_def stamp_fields)

lemma trim_append:
  assumes "0 \<le> cache_size" and "length q < 2147483647"
  shows "trim_cache cache_size (q @ [m]) = Inr (drop (Suc (length q) - nat cache_size) (q @ [m]))"
  using trim_cache_nonneg [of cache_size "q @ [m]"] assms by simp

subsection \<open>Running the sample records\<close>

lemma init_sel [simp]:
  "next_index init t = 0" "cache_of init t = []" "subscribers init t = []"
  "subscriptions init s = []" "written init = []"
  by (simp_all add: init_def next_index_def cache_of_def subscribers_def subscriptions_def)

lemma on_read_command:
  assumes "strip_cr raw = line" and "line \<noteq> []" and "line \<noteq> ''quit''"
    and "valid_utf8 decode line" and "parse line = Some (JObject cmd)" and "verify_command cmd"
  shows "on_read decode parse cache_size rnd self (Line raw) b =
           (case handle_command cache_size rnd self cmd b of
              Inl e \<Rightarrow> Inl e
            | Inr b' \<Rightarrow> Inr (Reading, b'))"
  using assms by (simp add: on_read_def)

lemma handle_command_send:
  "map_of cmd ''command'' = Some (JString ''send'') \<Longrightarrow>
   handle_command cache_size rnd self cmd b =
     (case handle_send cache_size rnd self cmd b of Inl e \<Rightarrow> Inl e | Inr (_, b') \<Rightarrow> Inr b')"
  by (simp add: handle_command_def at_string_field)

lemma handle_command_subscribe:
  "map_of cmd ''command'' = Some (JString ''subscribe'') \<Longrightarrow>
   handle_command cache_size rnd self cmd b = handle_subscribe cache_size self cmd b"
  by (simp add: handle_command_def at_string_field)

lemma handle_command_unsubscribe:
  "map_of cmd ''command'' = Some (JString ''unsubscribe'') \<Longrightarrow>
   handle_command cache_size rnd self cmd b = handle_unsubscribe self cmd b"
  by (simp add: handle_command_def at_string_field)

lemmas sample_texts =
  send_all_text_def send_one_text_def subscribe_text_def subscribe_far_text_def
  unsubscribe_text_def

lemma sample_send_all:
  "strip_cr send_all_text = send_all_text" "send_all_text \<noteq> []" "send_all_text \<noteq> ''quit''"
  "valid_utf8 utf_to_utf_char32 send_all_text" "sample_parse send_all_text = Some (JObject send_all)"
  "verify_command send_all"
  by (simp_all add: strip_cr_def valid_utf8_char32 sample_parse_def sample_texts
      verify_command_schema schema_conforms_def send_all_def field_is_def field_opt_def)

lemma sample_send_one:
  "strip_cr send_one_text = send_one_text" "send_one_text \<noteq> []" "send_one_text \<noteq> ''quit''"
  "valid_utf8 utf_to_utf_char32 send_one_text" "sample_parse send_one_text = Some (JObject send_one)"
  "verify_command send_one"
  by (simp_all add: strip_cr_def valid_utf8_char32 sample_parse_def sample_texts
      verify_command_schema schema_conforms_def send_one_def field_is_def field_opt_def)

lemma sample_subscribe:
  "strip_cr subscribe_text = subscribe_text" "subscribe_text \<noteq> []"
  "subscribe_text \<noteq> ''quit''"
  "valid_utf8 utf_to_utf_char32 subscribe_text" "sample_parse subscribe_text = Some (JObject subscribe)"
  "verify_command subscribe"
  by (simp_all add: strip_cr_def valid_utf8_char32 sample_parse_def sample_texts
      verify_command_schema schema_conforms_def subscribe_def field_is_def field_opt_def)

lemma sample_subscribe_far:
  "strip_cr subscribe_far_text = subscribe_far_text" "subscribe_far_text \<noteq> []"
  "subscribe_far_text \<noteq> ''quit''"
  "valid_utf8 utf_to_utf_char32 subscribe_far_text"
  "sample_parse subscribe_far_text = Some (JObject subscribe_far)"
  "verify_command subscribe_far"
  by (simp_all add: strip_cr_def valid_utf8_char32 sample_parse_def sample_texts
      verify_command_schema schema_conforms_def subscribe_far_def field_is_def field_opt_def)

lemma send_one_fields:
  "map_of send_one ''command'' = Some (JString ''send'')"
  "map_of send_one ''topic'' = Some (JString ''t'')"
  "map_of send_one ''delivery'' = Some (JString ''one'')"
  "field_opt send_one ''cache'' KBool" "wants_cache send_one"
  "delivery_of send_one = JString ''one''"
  by (simp_all add: send_one_def field_opt_def wants_cache_def delivery_of_def)

lemma send_all_fields:
  "map_of send_all ''command'' = Some (JString ''send'')"
  "map_of send_all ''topic'' = Some (JString ''t'')"
  "map_of send_all ''delivery'' = Some (JString ''all'')"
  "field_opt send_all ''cache'' KBool" "wants_cache send_all"
  "delivery_of send_all = JString ''all''"
  by (simp_all add: send_all_def field_opt_def wants_cache_def delivery_of_def)

lemma subscribe_fields:
  "map_of subscribe ''command'' = Some (JString ''subscribe'')"
  "map_of subscribe ''topic'' = Some (JString ''t'')"
  "field_opt subscribe ''last_seen'' KInt64"
  "field_opt subscribe ''cache'' KBool" "wants_cache subscribe"
  "last_seen_of subscribe = - 1"
  by (simp_all add: subscribe_def field_opt_def wants_cache_def last_seen_of_def)

lemma subscribe_far_fields:
  "map_of subscribe_far ''command'' = Some (JString ''subscribe'')"
  "map_of subscribe_far ''topic'' = Some (JString ''t'')"
  "map_of subscribe_far ''last_seen'' = Some (JInt64 4294967296)"
  "field_opt subscribe_far ''last_seen'' KInt64"
  "field_opt subscribe_far ''cache'' KBool" "wants_cache subscribe_far"
  "last_seen_of subscribe_far = 0"
  by (simp_all add: subscribe_far_def field_opt_def wants_cache_def last_seen_of_def
      to_int32_def)

lemma on_read_send_one:
  "on_read utf_to_utf_char32 sample_parse cache_size rnd self (Line send_one_text) b =
     (case handle_send cache_size rnd self send_one b of
        Inl e \<Rightarrow> Inl e
      | Inr (_, b') \<Rightarrow> Inr (Reading, b'))"
  by (simp add: on_read_command [where decode = utf_to_utf_char32 and parse = sample_parse, OF sample_send_one] handle_command_send send_one_fields
      split: sum.split)

lemma on_read_send_all:
  "on_read utf_to_utf_char32 sample_parse cache_size rnd self (Line send_all_text) b =
     (case handle_send cache_size rnd self send_all b of
        Inl e \<Rightarrow> Inl e
      | Inr (_, b') \<Rightarrow> Inr (Reading, b'))"
  by (simp add: on_read_command [where decode = utf_to_utf_char32 and parse = sample_parse, OF sample_send_all] handle_command_send send_all_fields
      split: sum.split)

lemma on_read_subscribe:
  "on_read utf_to_utf_char32 sample_parse cache_size rnd self (Line subscribe_text) b =
     (case handle_subscribe cache_size self subscribe b of
        Inl e \<Rightarrow> Inl e
      | Inr b' \<Rightarrow> Inr (Reading, b'))"
  by (simp add: on_read_command [where decode = utf_to_utf_char32 and parse = sample_parse, OF sample_subscribe] handle_command_subscribe subscribe_fields)

lemma on_read_subscribe_far:
  "on_read utf_to_utf_char32 sample_parse cache_size rnd self (Line subscribe_far_text) b =
     (case handle_subscribe cache_size self subscribe_far b of
        Inl e \<Rightarrow> Inl e
      | Inr b' \<Rightarrow> Inr (Reading, b'))"
  by (simp add: on_read_command [where decode = utf_to_utf_char32 and parse = sample_parse, OF sample_subscribe_far] handle_command_subscribe
      subscribe_far_fields)

lemma stamped_stamp:
  "0 \<le> i \<Longrightarrow> i \<le> 2147483647 \<Longrightarrow> map_of cmd ''delivery'' \<noteq> None \<Longrightarrow> stamped (stamp cmd i)"
  by (simp add: stamped_def stamp_fields INT_MAX_def)

lemma send_one_first:
  "handle_send 100 rnd 7 send_one init =
     Inr (stamp send_one 0,
          after_send 7 ''t'' (stamp send_one 0) [] (Some [stamp send_one 0]) init)"
  using trim_append [of 100 "[]" "stamp send_one 0"]
  by (simp add: handle_send_cases [OF send_one_fields(2,3,4)] send_one_fields INT_MAX_def
      recipients_of_def)

lemma registered_lookup [simp]:
  "next_index (registered s t b) = next_index b"
  "cache_of (registered s t b) = cache_of b"
  "subscribers (registered s t b) u =
     (if u = t then List.insert s (subscribers b t) else subscribers b u)"
  "subscriptions (registered s t b) s' =
     (if s' = s then List.insert t (subscriptions b s) else subscriptions b s')"
  by (simp_all add: registered_def next_index_def cache_of_def subscribers_def
      subscriptions_def fun_eq_iff)

lemma subscribe_after_one:
  "handle_subscribe 100 8 subscribe
     (after_send 7 ''t'' (stamp send_one 0) [] (Some [stamp send_one 0]) init) =
   Inr ((registered 8 ''t''
          (after_send 7 ''t'' (stamp send_one 0) [] (Some [stamp send_one 0]) init))
        \<lparr>caches :=
           (caches (after_send 7 ''t'' (stamp send_one 0) [] (Some [stamp send_one 0]) init))
           (''t'' \<mapsto> []),
         written := [(7, success), (8, success), (8, stamp send_one 0)]\<rparr>)"
proof -
  have st: "stamped (stamp send_one 0)"
    by (rule stamped_stamp) (simp_all add: send_one_fields)
  have "trim_cache 100 ([] :: object list) = Inr []"
    using trim_cache_nonneg [of 100 "[] :: object list"] by simp
  then show ?thesis
    using st
    by (subst handle_subscribe_cases [OF subscribe_fields(2,3,4)])
       (simp_all add: subscribe_fields unseen_def kept_def send_one_fields)
qed

subsection \<open>What a completion can do\<close>

lemma on_read_Inr:
  assumes "on_read decode parse cache_size rnd self inp b = Inr (st, b')"
  obtains (cleanup) "b' = cleanup self b" and "record_command decode parse inp = None"
  | (ignored) "b' = b" and "record_command decode parse inp = None"
  | (failure) why where "b' = send_failure self why b"
      and "record_command decode parse inp = None"
  | (command) cmd where "verify_command cmd" and "record_command decode parse inp = Some cmd"
      and "handle_command cache_size rnd self cmd b = Inr b'"
proof (cases inp)
  case ReadError
  with assms have "b' = cleanup self b" "record_command decode parse inp = None"
    by (simp_all add: on_read_def record_command_def)
  then show ?thesis by (rule cleanup)
next
  case (Line raw)
  show ?thesis
  proof (cases "strip_cr raw = ''quit''")
    case True
    with assms Line have "b' = cleanup self b" "record_command decode parse inp = None"
      by (simp_all add: on_read_def record_command_def)
    then show ?thesis by (rule cleanup)
  next
    case nq: False
    show ?thesis
    proof (cases "strip_cr raw = []")
      case True
      with assms Line nq have "b' = b" "record_command decode parse inp = None"
        by (simp_all add: on_read_def record_command_def)
      then show ?thesis by (rule ignored)
    next
      case ne: False
      show ?thesis
      proof (cases "valid_utf8 decode (strip_cr raw)")
        case False
        with assms Line nq ne
        have "b' = send_failure self ''Could not decode input as UTF-8'' b"
          "record_command decode parse inp = None"
          by (simp_all add: on_read_def record_command_def)
        then show ?thesis by (rule failure)
      next
        case v: True
        show ?thesis
        proof (cases "parse (strip_cr raw)")
          case None
          with assms Line nq ne v
          have "b' = send_failure self ''Could not parse json'' b"
            "record_command decode parse inp = None"
            by (simp_all add: on_read_def record_command_def)
          then show ?thesis by (rule failure)
        next
          case (Some val)
          show ?thesis
          proof (cases "\<exists>obj. val = JObject obj \<and> verify_command obj")
            case True
            then obtain obj where o: "val = JObject obj" "verify_command obj" by blast
            with assms Line nq ne v Some
            have "record_command decode parse inp = Some obj"
              "handle_command cache_size rnd self obj b = Inr b'"
              by (simp_all add: on_read_def record_command_def split: sum.splits)
            with o(2) show ?thesis by (rule command)
          next
            case False
            with assms Line nq ne v Some
            have "b' = send_failure self ''Malformed json message'' b"
              "record_command decode parse inp = None"
              by (cases val; simp add: on_read_def record_command_def)+
            then show ?thesis by (rule failure)
          qed
        qed
      qed
    qed
  qed
qed

lemma schema_command:
  assumes "verify_command cmd"
  obtains (subscribe) t where "map_of cmd ''command'' = Some (JString ''subscribe'')"
      and "map_of cmd ''topic'' = Some (JString t)"
      and "field_opt cmd ''last_seen'' KInt64" and "field_opt cmd ''cache'' KBool"
  | (unsubscribe) t where "map_of cmd ''command'' = Some (JString ''unsubscribe'')"
      and "map_of cmd ''topic'' = Some (JString t)"
  | (send) t d where "map_of cmd ''command'' = Some (JString ''send'')"
      and "map_of cmd ''topic'' = Some (JString t)"
      and "map_of cmd ''delivery'' = Some (JString d)"
      and "field_opt cmd ''cache'' KBool"
proof -
  from assms have s: "schema_conforms cmd" by (simp add: verify_command_schema)
  then consider
    (a) "map_of cmd ''command'' = Some (JString ''subscribe'')" "field_is cmd ''topic'' KString"
      "field_opt cmd ''last_seen'' KInt64" "field_opt cmd ''cache'' KBool"
    | (b) "map_of cmd ''command'' = Some (JString ''unsubscribe'')"
      "field_is cmd ''topic'' KString"
    | (c) "map_of cmd ''command'' = Some (JString ''send'')" "field_is cmd ''topic'' KString"
      "map_of cmd ''delivery'' = Some (JString ''all'') \<or>
       map_of cmd ''delivery'' = Some (JString ''one'')"
      "field_opt cmd ''cache'' KBool"
    unfolding schema_conforms_def by blast
  then show ?thesis
  proof cases
    case a
    from field_is_string [OF a(2)] obtain t where "map_of cmd ''topic'' = Some (JString t)" ..
    with a show ?thesis by (intro subscribe)
  next
    case b
    from field_is_string [OF b(2)] obtain t where "map_of cmd ''topic'' = Some (JString t)" ..
    with b show ?thesis by (intro unsubscribe)
  next
    case c
    from field_is_string [OF c(2)] obtain t where t: "map_of cmd ''topic'' = Some (JString t)" ..
    from c(3) obtain d where "map_of cmd ''delivery'' = Some (JString d)" by blast
    with c t show ?thesis by (intro send)
  qed
qed

subsection \<open>Caches and counters along a run\<close>

lemma cache_inv_same:
  "caches b' = caches b \<Longrightarrow> indexs b' = indexs b \<Longrightarrow> cache_inv b' = cache_inv b"
  by (simp add: cache_inv_def cache_of_def next_index_def)

lemma cleanup_sel [simp]:
  "caches (cleanup s b) = caches b" "indexs (cleanup s b) = indexs b"
  "written (cleanup s b) = written b"
  by (simp_all add: cleanup_def split: option.split)

lemma send_failure_sel [simp]:
  "caches (send_failure s why b) = caches b" "indexs (send_failure s why b) = indexs b"
  "topics (send_failure s why b) = topics b" "topics_rev (send_failure s why b) = topics_rev b"
  by (simp_all add: send_failure_def send_cmd_def)

lemma handle_unsubscribe_result:
  "map_of cmd ''topic'' = Some (JString t) \<Longrightarrow>
   handle_unsubscribe self cmd b =
     Inr (b\<lparr>topics := (topics b)(t \<mapsto> removeAll self (subscribers b t)),
            topics_rev := (topics_rev b)(self \<mapsto> removeAll t (subscriptions b self)),
            written := written b @ [(self, success)]\<rparr>)"
  by (simp add: handle_unsubscribe_def at_string_field send_success_def send_cmd_def)

lemma cache_invI:
  assumes "\<And>t. 0 \<le> next_index b t" and "\<And>t. next_index b t \<le> INT_MAX"
    and "\<And>t m. m \<in> set (cache_of b t) \<Longrightarrow> stamped m \<and> index_of m < next_index b t"
    and "\<And>t. sorted_wrt (<) (map index_of (cache_of b t))"
  shows "cache_inv b"
  using assms by (simp add: cache_inv_def)

lemma cache_invD:
  assumes "cache_inv b"
  shows "0 \<le> next_index b t" and "next_index b t \<le> INT_MAX"
    and "m \<in> set (cache_of b t) \<Longrightarrow> stamped m"
    and "m \<in> set (cache_of b t) \<Longrightarrow> index_of m < next_index b t"
    and "sorted_wrt (<) (map index_of (cache_of b t))"
  using assms by (simp_all add: cache_inv_def)

lemma sorted_indices_drop:
  "sorted_wrt (<) (map index_of q) \<Longrightarrow> sorted_wrt (<) (map index_of (drop n q))"
  by (simp add: sorted_wrt_map sorted_wrt_drop)

lemma sorted_indices_filter:
  "sorted_wrt (<) (map index_of q) \<Longrightarrow> sorted_wrt (<) (map index_of (filter P q))"
  by (simp add: sorted_wrt_map sorted_wrt_filter)

lemma cache_inv_subscribe:
  assumes inv: "cache_inv b"
    and f: "map_of cmd ''topic'' = Some (JString t)" "field_opt cmd ''last_seen'' KInt64"
      "field_opt cmd ''cache'' KBool"
    and r: "handle_subscribe cache_size self cmd b = Inr b'"
  shows "cache_inv b'"
proof (cases "wants_cache cmd")
  note hs = handle_subscribe_cases [OF f ballI, OF cache_invD(3) [OF inv]]
  case False
  with r have "b' = (registered self t b)\<lparr>written := written b @ [(self, success)]\<rparr>"
    by (simp add: hs)
  then have "caches b' = caches b" "indexs b' = indexs b" by simp_all
  then show ?thesis using inv cache_inv_same [of b' b] by simp
next
  case True
  let ?k = "last_seen_of cmd"
  from True r obtain q' where q': "trim_cache cache_size (kept ?k (cache_of b t)) = Inr q'"
    and b': "b' = (registered self t b)
               \<lparr>caches := (caches b)(t \<mapsto> q'),
                 written := written b @ (self, success) #
                   map (Pair self) (unseen ?k (cache_of b t))\<rparr>"
    by (auto simp: handle_subscribe_cases [OF f ballI, OF cache_invD(3) [OF inv]]
        split: sum.splits)
  from trim_cache_drop [OF q'] obtain n where n: "q' = drop n (kept ?k (cache_of b t))" ..
  have idx: "next_index b' = next_index b"
    using b' by (simp add: next_index_def fun_eq_iff)
  have c: "cache_of b' u = (if u = t then q' else cache_of b u)" for u
    using b' by (simp add: cache_of_def)
  have sub: "set q' \<subseteq> set (cache_of b t)"
    using n by (auto simp: kept_def dest: in_set_dropD)
  show ?thesis
  proof (rule cache_invI)
    fix u m
    assume "m \<in> set (cache_of b' u)"
    then have "m \<in> set (cache_of b u)" using sub by (auto simp: c split: if_splits)
    then show "stamped m \<and> index_of m < next_index b' u"
      using cache_invD(3,4) [OF inv, of m u] by (simp add: idx)
  next
    fix u
    show "sorted_wrt (<) (map index_of (cache_of b' u))"
      using cache_invD(5) [OF inv, of u] cache_invD(5) [OF inv, of t]
      by (simp add: c n kept_def sorted_indices_drop sorted_indices_filter)
  qed (simp_all add: idx cache_invD(1,2) [OF inv])
qed

lemma cache_inv_send:
  assumes inv: "cache_inv b"
    and f: "map_of cmd ''topic'' = Some (JString t)"
      "map_of cmd ''delivery'' = Some (JString d)" "field_opt cmd ''cache'' KBool"
    and r: "handle_send cache_size rnd self cmd b = Inr (m, b')"
  shows "cache_inv b'"
proof -
  let ?i = "next_index b t"
  let ?m = "stamp cmd ?i"
  from r have ni: "?i \<noteq> INT_MAX"
    by (auto simp: handle_send_cases [OF f] split: if_splits)
  have range: "0 \<le> ?i" "?i < INT_MAX"
    using cache_invD(1,2) [OF inv, of t] ni by simp_all
  from r ni consider
    (kept) q' where "trim_cache cache_size (cache_of b t @ [?m]) = Inr q'"
      "b' = after_send self t ?m (recipients_of rnd d (subscribers b t)) (Some q') b"
    | (not_kept) "b' = after_send self t ?m (recipients_of rnd d (subscribers b t)) None b"
    by (auto simp: handle_send_cases [OF f] split: if_splits sum.splits)
  then show ?thesis
  proof cases
    case not_kept
    show ?thesis
    proof (rule cache_invI)
      fix u m'
      assume "m' \<in> set (cache_of b' u)"
      then have "stamped m'" "index_of m' < next_index b u"
        using cache_invD(3,4) [OF inv, of m' u] by (simp_all add: not_kept)
      then show "stamped m' \<and> index_of m' < next_index b' u"
        by (auto simp: not_kept)
    next
      fix u
      show "0 \<le> next_index b' u" "next_index b' u \<le> INT_MAX"
        using cache_invD(1,2) [OF inv, of u] range by (simp_all add: not_kept)
      show "sorted_wrt (<) (map index_of (cache_of b' u))"
        using cache_invD(5) [OF inv, of u] by (simp add: not_kept)
    qed
  next
    case kept
    from trim_cache_drop [OF kept(1)] obtain n where n: "q' = drop n (cache_of b t @ [?m])" ..
    have sm: "stamped ?m"
      using range f(2) by (intro stamped_stamp) (simp_all add: INT_MAX_def)
    have sorted: "sorted_wrt (<) (map index_of (cache_of b t @ [?m]))"
      using cache_invD(4) [OF inv, of _ t] cache_invD(5) [OF inv, of t]
      by (auto simp: sorted_wrt_append)
    show ?thesis
    proof (rule cache_invI)
      fix u m'
      assume a: "m' \<in> set (cache_of b' u)"
      show "stamped m' \<and> index_of m' < next_index b' u"
      proof (cases "u = t")
        case False
        with a show ?thesis using cache_invD(3,4) [OF inv, of m' u] by (simp add: kept(2))
      next
        case True
        with a have "m' \<in> set (cache_of b t) \<or> m' = ?m"
          by (auto simp: kept(2) n dest: in_set_dropD)
        then show ?thesis
          using True sm cache_invD(3,4) [OF inv, of m' t] by (auto simp: kept(2))
      qed
    next
      fix u
      show "0 \<le> next_index b' u" "next_index b' u \<le> INT_MAX"
        using cache_invD(1,2) [OF inv, of u] range by (simp_all add: kept(2))
      have "sorted_wrt (<) (map index_of q')"
        unfolding n using sorted by (rule sorted_indices_drop)
      then show "sorted_wrt (<) (map index_of (cache_of b' u))"
        using cache_invD(5) [OF inv, of u] by (simp add: kept(2))
    qed
  qed
qed

lemma handle_command_Inr:
  assumes "verify_command cmd" and "handle_command cache_size rnd self cmd b = Inr b'"
  obtains (subscribe) t where "map_of cmd ''command'' = Some (JString ''subscribe'')"
      and "map_of cmd ''topic'' = Some (JString t)"
      and "field_opt cmd ''last_seen'' KInt64" and "field_opt cmd ''cache'' KBool"
      and "handle_subscribe cache_size self cmd b = Inr b'"
  | (unsubscribe) t where "map_of cmd ''command'' = Some (JString ''unsubscribe'')"
      and "map_of cmd ''topic'' = Some (JString t)"
      and "handle_unsubscribe self cmd b = Inr b'"
  | (send) t d m where "map_of cmd ''command'' = Some (JString ''send'')"
      and "map_of cmd ''topic'' = Some (JString t)"
      and "map_of cmd ''delivery'' = Some (JString d)"
      and "field_opt cmd ''cache'' KBool"
      and "handle_send cache_size rnd self cmd b = Inr (m, b')"
  using assms(1)
proof (cases rule: schema_command)
  case (subscribe t)
  with assms(2) have "handle_subscribe cache_size self cmd b = Inr b'"
    by (simp add: handle_command_subscribe)
  with subscribe show ?thesis by (intro that(1))
next
  case (unsubscribe t)
  with assms(2) have "handle_unsubscribe self cmd b = Inr b'"
    by (simp add: handle_command_unsubscribe)
  with unsubscribe show ?thesis by (intro that(2))
next
  case (send t d)
  with assms(2) obtain m where "handle_send cache_size rnd self cmd b = Inr (m, b')"
    by (auto simp: handle_command_send split: sum.splits)
  with send show ?thesis by (intro that(3))
qed

lemma cache_inv_on_read:
  assumes "cache_inv b" and "on_read decode parse cache_size rnd self inp b = Inr (st, b')"
  shows "cache_inv b'"
  using assms(2)
proof (cases rule: on_read_Inr)
  case cleanup
  then show ?thesis using assms(1) cache_inv_same [of b' b] by simp
next
  case ignored
  then show ?thesis using assms(1) by simp
next
  case (failure why)
  then show ?thesis using assms(1) cache_inv_same [of b' b] by simp
next
  case (command cmd)
  from command(1,3) show ?thesis
  proof (cases rule: handle_command_Inr)
    case (subscribe t)
    show ?thesis by (rule cache_inv_subscribe [OF assms(1) subscribe(2,3,4,5)])
  next
    case (unsubscribe t)
    then have "caches b' = caches b" "indexs b' = indexs b"
      by (auto simp: handle_unsubscribe_result)
    then show ?thesis using assms(1) cache_inv_same [of b' b] by simp
  next
    case (send t d m)
    show ?thesis by (rule cache_inv_send [OF assms(1) send(2,3,4,5)])
  qed
qed

lemma cache_inv_run:
  "cache_inv b \<Longrightarrow> run decode parse cache_size evs b = Inr b' \<Longrightarrow> cache_inv b'"
proof (induction evs arbitrary: b)
  case Nil
  then show ?case by simp
next
  case (Cons ev evs)
  obtain self inp rnd where ev: "ev = (self, inp, rnd)" by (cases ev)
  from Cons.prems(2) obtain st b1
    where s: "on_read decode parse cache_size rnd self inp b = Inr (st, b1)"
      and r: "run decode parse cache_size evs b1 = Inr b'"
    by (auto simp: ev split: sum.splits)
  from cache_inv_on_read [OF Cons.prems(1) s] r show ?case by (rule Cons.IH)
qed

lemma cache_inv_init: "cache_inv init"
  by (simp add: cache_inv_def INT_MAX_def)

lemma cache_inv_length:
  assumes "cache_inv b"
  shows "length (cache_of b t) < 2147483648"
proof -
  let ?xs = "map index_of (cache_of b t)"
  have "distinct ?xs"
    using cache_invD(5) [OF assms, of t] by (simp add: strict_sorted_iff)
  then have "length ?xs = card (set ?xs)" by (rule distinct_card [symmetric])
  also have "set ?xs \<subseteq> {0..<next_index b t}"
    using cache_invD(3,4) [OF assms, of _ t] stamped_range by auto
  then have "card (set ?xs) \<le> card {0..<next_index b t}"
    by (intro card_mono) simp_all
  also have "\<dots> \<le> nat INT_MAX"
    using cache_invD(1,2) [OF assms, of t] by simp
  finally show ?thesis by (simp add: INT_MAX_def)
qed

subsection \<open>Catch-up and prune\<close>

lemma three_sent_sel [simp]:
  "cache_of three_sent ''t'' = [stamp send_all 0, stamp send_one 1, stamp send_all 2]"
  "next_index three_sent ''t'' = 3" "subscribers three_sent u = []"
  "written three_sent = [(7, success), (7, success), (7, success)]"
  by (simp_all add: three_sent_def cache_of_def next_index_def subscribers_def)

lemma three_sent_stamped: "\<forall>m \<in> set (cache_of three_sent ''t''). stamped m"
  by (simp add: stamped_stamp send_all_fields send_one_fields)

lemma handle_send_unsubscribed:
  assumes "map_of cmd ''topic'' = Some (JString t)"
    and "map_of cmd ''delivery'' = Some (JString d)"
    and "field_opt cmd ''cache'' KBool" and "wants_cache cmd"
    and "subscribers b t = []" and "next_index b t \<noteq> INT_MAX"
    and "length (cache_of b t) < 100"
  shows "handle_send 100 rnd self cmd b =
           Inr (stamp cmd (next_index b t),
                after_send self t (stamp cmd (next_index b t)) []
                  (Some (cache_of b t @ [stamp cmd (next_index b t)])) b)"
  using assms(4-7) trim_append [of 100 "cache_of b t" "stamp cmd (next_index b t)"]
  by (simp add: handle_send_cases [OF assms(1-3)] recipients_of_def)

lemma three_sent_state:
  "after_send 7 ''t'' (stamp send_all 2) []
     (Some [stamp send_all 0, stamp send_one 1, stamp send_all 2])
     (after_send 7 ''t'' (stamp send_one 1) [] (Some [stamp send_all 0, stamp send_one 1])
        (after_send 7 ''t'' (stamp send_all 0) [] (Some [stamp send_all 0]) init)) =
   three_sent"
  by (simp add: after_send_def init_def three_sent_def subscribers_def next_index_def)

lemma three_sent_run:
  "run utf_to_utf_char32 sample_parse 100
     [(7, Line send_all_text, 0), (7, Line send_one_text, 0), (7, Line send_all_text, 0)] init =
   Inr three_sent"
proof -
  let ?s1 = "after_send 7 ''t'' (stamp send_all 0) [] (Some [stamp send_all 0]) init"
  let ?s2 = "after_send 7 ''t'' (stamp send_one 1) []
               (Some [stamp send_all 0, stamp send_one 1]) ?s1"
  have 1: "handle_send 100 0 7 send_all init = Inr (stamp send_all 0, ?s1)"
    using handle_send_unsubscribed [OF send_all_fields(2,3,4,5), of init 0 7]
    by (simp add: INT_MAX_def)
  have 2: "handle_send 100 0 7 send_one ?s1 = Inr (stamp send_one 1, ?s2)"
    using handle_send_unsubscribed [OF send_one_fields(2,3,4,5), of ?s1 0 7]
    by (simp add: INT_MAX_def)
  have 3: "handle_send 100 0 7 send_all ?s2 =
             Inr (stamp send_all 2,
                  after_send 7 ''t'' (stamp send_all 2) []
                    (Some [stamp send_all 0, stamp send_one 1, stamp send_all 2]) ?s2)"
    using handle_send_unsubscribed [OF send_all_fields(2,3,4,5), of ?s2 0 7]
    by (simp add: INT_MAX_def)
  show ?thesis
    by (simp add: on_read_send_all on_read_send_one 1 2 3 three_sent_state)
qed

subsection \<open>The mark of a subscribe command\<close>

lemma run_append:
  "run decode parse cache_size (es @ fs) b =
     (case run decode parse cache_size es b of
        Inl e \<Rightarrow> Inl e
      | Inr b' \<Rightarrow> run decode parse cache_size fs b')"
proof (induction es arbitrary: b)
  case Nil
  then show ?case by simp
next
  case (Cons ev es)
  obtain self inp rnd where "ev = (self, inp, rnd)" by (cases ev)
  then show ?case by (simp add: Cons.IH split: sum.split)
qed

lemma to_int32_idem: "to_int32 (to_int32 v) = to_int32 v"
  by (simp add: to_int32_def)

lemma subscribe_far_on_three:
  "handle_subscribe 100 8 subscribe_far three_sent =
     Inr ((registered 8 ''t'' three_sent)
          \<lparr>caches := (caches three_sent)(''t'' \<mapsto> [stamp send_all 0, stamp send_all 2]),
            written := [(7, success), (7, success), (7, success), (8, success),
                        (8, stamp send_one 1), (8, stamp send_all 2)]\<rparr>)"
proof -
  have "trim_cache 100 [stamp send_all 0, stamp send_all 2] =
          Inr [stamp send_all 0, stamp send_all 2]"
    using trim_cache_nonneg [of 100 "[stamp send_all 0, stamp send_all 2]"] by simp
  then show ?thesis
    by (subst handle_subscribe_cases [OF subscribe_far_fields(2,4,5) three_sent_stamped])
       (simp add: subscribe_far_fields unseen_def kept_def send_all_fields send_one_fields)
qed

subsection \<open>The registry\<close>

lemma replay_written: "replay s k q b = Inr b' \<Longrightarrow> \<exists>w. b' = b\<lparr>written := w\<rparr>"
proof (induction q arbitrary: b)
  case Nil
  then have "b' = b\<lparr>written := written b\<rparr>" by simp
  then show ?case ..
next
  case (Cons m q)
  from Cons.prems obtain idx where "at_int64 m ''index'' = Inr idx"
    and r: "replay s k q (if idx > k then send_cmd s m b else b) = Inr b'"
    by (auto split: sum.splits)
  from Cons.IH [OF r] obtain w where "b' = (if idx > k then send_cmd s m b else b)\<lparr>written := w\<rparr>" ..
  then have "b' = b\<lparr>written := w\<rparr>" by (simp add: send_cmd_def split: if_splits)
  then show ?case ..
qed

lemma send_cached_frame:
  assumes "send_cached cache_size s t k b = Inr b'"
  shows "topics b' = topics b" and "topics_rev b' = topics_rev b" and "indexs b' = indexs b"
proof -
  from assms obtain b1 q' where "replay s k (cache_of b t) b = Inr b1"
    and b': "b' = b1\<lparr>caches := (caches b1)(t \<mapsto> q')\<rparr>"
    by (auto simp: send_cached_def Let_def split: sum.splits)
  from replay_written [OF this(1)] obtain w where "b1 = b\<lparr>written := w\<rparr>" ..
  with b' show "topics b' = topics b" "topics_rev b' = topics_rev b" "indexs b' = indexs b"
    by simp_all
qed

lemma handle_subscribe_frame:
  assumes "handle_subscribe cache_size self cmd b = Inr b'"
  obtains t where "at_string cmd ''topic'' = Inr t"
    and "topics b' = topics (registered self t b)"
    and "topics_rev b' = topics_rev (registered self t b)"
    and "indexs b' = indexs b"
proof -
  from assms obtain t where t: "at_string cmd ''topic'' = Inr t"
    by (cases "at_string cmd ''topic''") (simp_all add: handle_subscribe_def)
  let ?b2 = "send_success self (registered self t b)"
  let ?ls = "case map_of cmd ''last_seen'' of
               None \<Rightarrow> Inr (- 1)
             | Some v \<Rightarrow> (case as_int64 v of Inl e \<Rightarrow> Inl e | Inr i \<Rightarrow> Inr (to_int32 i))"
  let ?cf = "if contains cmd ''cache'' then at_bool cmd ''cache'' else Inr True"
  have h: "handle_subscribe cache_size self cmd b =
             (case ?ls of
                Inl e \<Rightarrow> Inl e
              | Inr k \<Rightarrow>
                  (case ?cf of
                     Inl e \<Rightarrow> Inl e
                   | Inr w \<Rightarrow> if w then send_cached cache_size self t k ?b2 else Inr ?b2))"
    unfolding handle_subscribe_def Let_def registered_def by (simp add: t)
  from assms obtain k where k: "?ls = Inr k"
    unfolding h by (cases ?ls) simp_all
  from assms obtain w where w: "?cf = Inr w"
    unfolding h k by (cases ?cf) simp_all
  from assms have "(if w then send_cached cache_size self t k ?b2 else Inr ?b2) = Inr b'"
    unfolding h k w by simp
  then consider "b' = ?b2" | "send_cached cache_size self t k ?b2 = Inr b'"
    by (cases w) auto
  then have "topics b' = topics ?b2 \<and> topics_rev b' = topics_rev ?b2 \<and> indexs b' = indexs ?b2"
    by cases (simp_all add: send_cached_frame)
  then have "topics b' = topics (registered self t b)"
    "topics_rev b' = topics_rev (registered self t b)" "indexs b' = indexs b"
    by (simp_all add: send_success_def send_cmd_def)
  with t show ?thesis by (rule that)
qed

lemma registry_consistent_same:
  "topics b' = topics b \<Longrightarrow> topics_rev b' = topics_rev b \<Longrightarrow>
   registry_consistent b' = registry_consistent b"
  by (simp add: registry_consistent_def subscribers_def subscriptions_def)

lemma registry_registered:
  "registry_consistent b \<Longrightarrow> registry_consistent (registered s t b)"
  by (auto simp: registry_consistent_def)

lemma registry_subscribe:
  assumes "registry_consistent b" and "handle_subscribe cache_size self cmd b = Inr b'"
  shows "registry_consistent b'"
  using assms(2)
proof (cases rule: handle_subscribe_frame)
  case (1 t)
  then show ?thesis
    using registry_registered [OF assms(1), of self t]
      registry_consistent_same [of b' "registered self t b"] by simp
qed

lemma registry_unsubscribe:
  assumes "registry_consistent b" and "handle_unsubscribe self cmd b = Inr b'"
  shows "registry_consistent b'"
proof -
  from assms(2) obtain t where t: "at_string cmd ''topic'' = Inr t"
    by (cases "at_string cmd ''topic''") (simp_all add: handle_unsubscribe_def)
  with assms(2) have b': "b' = send_success self
            (b\<lparr>topics := (topics b)(t \<mapsto> removeAll self (subscribers b t)),
               topics_rev := (topics_rev b)(self \<mapsto> removeAll t (subscriptions b self))\<rparr>)"
    by (simp add: handle_unsubscribe_def)
  have "subscribers b' u = (if u = t then removeAll self (subscribers b t) else subscribers b u)"
    "subscriptions b' s = (if s = self then removeAll t (subscriptions b self)
                           else subscriptions b s)" for u s
    by (simp_all add: b' send_success_def send_cmd_def subscribers_def subscriptions_def)
  then show ?thesis
    using assms(1) by (auto simp: registry_consistent_def)
qed

lemma fold_erase:
  "(case fold (\<lambda>t tp. tp(t \<mapsto> removeAll s (case tp t of None \<Rightarrow> [] | Some ss \<Rightarrow> ss))) ts tp u of
      None \<Rightarrow> [] | Some ss \<Rightarrow> ss) =
   (if u \<in> set ts then removeAll s (case tp u of None \<Rightarrow> [] | Some ss \<Rightarrow> ss)
    else (case tp u of None \<Rightarrow> [] | Some ss \<Rightarrow> ss))"
  by (induction ts arbitrary: tp) simp_all

lemma cleanup_lookup:
  "subscribers (cleanup s b) u =
     (if u \<in> set (subscriptions b s) then removeAll s (subscribers b u) else subscribers b u)"
  "subscriptions (cleanup s b) s' = (if s' = s then [] else subscriptions b s')"
  by (cases "topics_rev b s";
      simp add: cleanup_def subscribers_def subscriptions_def fold_erase)+

lemma registry_cleanup:
  assumes "registry_consistent b"
  shows "registry_consistent (cleanup s b)" and "s \<notin> set (subscribers (cleanup s b) t)"
  using assms by (auto simp: registry_consistent_def cleanup_lookup)

lemma registry_on_read:
  assumes "registry_consistent b"
    and "on_read decode parse cache_size rnd self inp b = Inr (st, b')"
  shows "registry_consistent b'"
  using assms(2)
proof (cases rule: on_read_Inr)
  case cleanup
  then show ?thesis using registry_cleanup(1) [OF assms(1)] by simp
next
  case ignored
  then show ?thesis using assms(1) by simp
next
  case (failure why)
  then show ?thesis
    using assms(1) registry_consistent_same [of b' b] by simp
next
  case (command cmd)
  from command(1,3) show ?thesis
  proof (cases rule: handle_command_Inr)
    case (subscribe t)
    show ?thesis by (rule registry_subscribe [OF assms(1) subscribe(5)])
  next
    case (unsubscribe t)
    show ?thesis by (rule registry_unsubscribe [OF assms(1) unsubscribe(3)])
  next
    case (send t d m)
    from send(5) have "subscribers b' = subscribers b" "subscriptions b' = subscriptions b"
      by (auto simp: handle_send_cases [OF send(2,3,4)] fun_eq_iff split: if_splits sum.splits)
    then show ?thesis using assms(1) by (simp add: registry_consistent_def)
  qed
qed

lemma registry_run:
  "registry_consistent b \<Longrightarrow> run decode parse cache_size evs b = Inr b' \<Longrightarrow>
   registry_consistent b'"
proof (induction evs arbitrary: b)
  case Nil
  then show ?case by simp
next
  case (Cons ev evs)
  obtain self inp rnd where ev: "ev = (self, inp, rnd)" by (cases ev)
  from Cons.prems(2) obtain st b1
    where s: "on_read decode parse cache_size rnd self inp b = Inr (st, b1)"
      and r: "run decode parse cache_size evs b1 = Inr b'"
    by (auto simp: ev split: sum.splits)
  from registry_on_read [OF Cons.prems(1) s] r show ?case by (rule Cons.IH)
qed

lemma registry_init: "registry_consistent init"
  by (simp add: registry_consistent_def)

lemma on_read_closes:
  "inp = ReadError \<or> inp = Line ''quit'' \<Longrightarrow>
   on_read decode parse cache_size rnd self inp b = Inr (Closed, cleanup self b)"
  by (auto simp: on_read_def strip_cr_def)

lemma subscribe_first:
  "handle_subscribe 100 8 subscribe init =
     Inr ((registered 8 ''t'' init)
          \<lparr>caches := (caches init)(''t'' \<mapsto> []), written := [(8, success)]\<rparr>)"
proof -
  have "trim_cache 100 ([] :: object list) = Inr []"
    using trim_cache_nonneg [of 100 "[] :: object list"] by simp
  then show ?thesis
    by (subst handle_subscribe_cases [OF subscribe_fields(2,3,4)])
       (simp_all add: subscribe_fields unseen_def kept_def)
qed

subsection \<open>Counting sends\<close>

lemma next_index_same: "indexs b' = indexs b \<Longrightarrow> next_index b' t = next_index b t"
  by (simp add: next_index_def)

lemma next_index_cleanup [simp]:
  "next_index (cleanup s b) t = next_index b t"
  "next_index (send_failure s why b) t = next_index b t"
  by (simp_all add: next_index_def)

lemma handle_send_Inr:
  assumes "map_of cmd ''topic'' = Some (JString t)"
    and "map_of cmd ''delivery'' = Some (JString d)"
    and "field_opt cmd ''cache'' KBool"
    and "handle_send cache_size rnd self cmd b = Inr (m, b')"
  shows "m = stamp cmd (next_index b t)"
    and "next_index b' u = (if u = t then next_index b t + 1 else next_index b u)"
    and "next_index b t \<noteq> INT_MAX"
  using assms(4)
  by (auto simp: handle_send_cases [OF assms(1-3)] split: if_splits sum.splits)

lemma index_step:
  assumes "on_read decode parse cache_size rnd self inp b = Inr (st, b')"
  shows "next_index b' t =
           next_index b t + (if send_event decode parse t (self, inp, rnd) then 1 else 0) \<and>
         (case record_command decode parse inp of
            None \<Rightarrow> []
          | Some obj \<Rightarrow>
              if is_send_to t obj
              then (case handle_send cache_size rnd self obj b of
                      Inl e \<Rightarrow> []
                    | Inr (cmd', _) \<Rightarrow> [index_of cmd'])
              else []) =
         (if send_event decode parse t (self, inp, rnd) then [next_index b t] else [])"
  using assms
proof (cases rule: on_read_Inr)
  case cleanup
  then show ?thesis by (simp add: send_event_def)
next
  case ignored
  then show ?thesis by (simp add: send_event_def)
next
  case (failure why)
  then show ?thesis by (simp add: send_event_def)
next
  case (command cmd)
  from command(1,3) have
    "next_index b' t = next_index b t + (if is_send_to t cmd then 1 else 0) \<and>
     (if is_send_to t cmd
      then (case handle_send cache_size rnd self cmd b of
              Inl e \<Rightarrow> []
            | Inr (cmd', _) \<Rightarrow> [index_of cmd'])
      else []) = (if is_send_to t cmd then [next_index b t] else [])"
  proof (cases rule: handle_command_Inr)
    case (subscribe u)
    from subscribe(5) have "indexs b' = indexs b"
      by (cases rule: handle_subscribe_frame)
    then show ?thesis
      using subscribe(1) next_index_same [of b' b t] by (simp add: is_send_to_def)
  next
    case (unsubscribe u)
    then have "indexs b' = indexs b" by (auto simp: handle_unsubscribe_result)
    then show ?thesis
      using unsubscribe(1) next_index_same [of b' b t] by (simp add: is_send_to_def)
  next
    case (send u d m)
    note r = handle_send_Inr [OF send(2,3,4,5)]
    show ?thesis
      using send(1,2,5) r(1) r(2) [of t] by (simp add: is_send_to_def)
  qed
  with command(2) show ?thesis by (simp add: send_event_def)
qed

lemma sends_to_Cons:
  "sends_to decode parse t (ev # evs) =
     (if send_event decode parse t ev then 1 else 0) + sends_to decode parse t evs"
  by (simp add: sends_to_def)

lemma counting:
  "run decode parse cache_size evs b = Inr b' \<Longrightarrow>
   next_index b' t = next_index b t + int (sends_to decode parse t evs) \<and>
   assigned decode parse cache_size t evs b =
     map (\<lambda>i. next_index b t + int i) [0..<sends_to decode parse t evs]"
proof (induction evs arbitrary: b)
  case Nil
  then show ?case by (simp add: sends_to_def)
next
  case (Cons ev evs)
  obtain self inp rnd where ev: "ev = (self, inp, rnd)" by (cases ev)
  from Cons.prems obtain st b1
    where s: "on_read decode parse cache_size rnd self inp b = Inr (st, b1)"
      and r: "run decode parse cache_size evs b1 = Inr b'"
    by (auto simp: ev split: sum.splits)
  note ih = Cons.IH [OF r]
  note st = index_step [OF s, of t, THEN conjunct1] index_step [OF s, of t, THEN conjunct2]
  show ?case
  proof (cases "send_event decode parse t (self, inp, rnd)")
    case True
    with ih st show ?thesis
      by (simp add: ev s sends_to_Cons map_upt_Suc del: upt_Suc add.commute)
  next
    case False
    with ih st show ?thesis
      by (simp add: ev s sends_to_Cons)
  qed
qed

lemma cache_inv_length_le:
  assumes "cache_inv b"
  shows "int (length (cache_of b t)) \<le> next_index b t"
proof -
  let ?xs = "map index_of (cache_of b t)"
  have "distinct ?xs"
    using cache_invD(5) [OF assms, of t] by (simp add: strict_sorted_iff)
  then have "length ?xs = card (set ?xs)" by (rule distinct_card [symmetric])
  also have "set ?xs \<subseteq> {0..<next_index b t}"
    using cache_invD(3,4) [OF assms, of _ t] stamped_range by auto
  then have "card (set ?xs) \<le> card {0..<next_index b t}"
    by (intro card_mono) simp_all
  finally show ?thesis using cache_invD(1) [OF assms, of t] by simp
qed

lemma on_read_record:
  "on_read decode parse cache_size rnd self inp b =
     (case record_command decode parse inp of
        Some cmd \<Rightarrow>
          (case handle_command cache_size rnd self cmd b of
             Inl e \<Rightarrow> Inl e
           | Inr b' \<Rightarrow> Inr (Reading, b'))
      | None \<Rightarrow> on_read decode parse cache_size rnd self inp b)"
proof (cases inp)
  case ReadError
  then show ?thesis by (simp add: record_command_def)
next
  case (Line raw)
  show ?thesis
  proof (cases "strip_cr raw = ''quit'' \<or> strip_cr raw = [] \<or> \<not> valid_utf8 decode (strip_cr raw)")
    case True
    with Line show ?thesis by (auto simp: record_command_def)
  next
    case False
    show ?thesis
    proof (cases "parse (strip_cr raw)")
      case None
      with Line False show ?thesis by (simp add: record_command_def)
    next
      case (Some val)
      with Line False show ?thesis
        by (cases val) (simp_all add: record_command_def on_read_def)
    qed
  qed
qed

lemma on_read_no_command:
  assumes "record_command decode parse inp = None"
  shows "\<exists>st b'. on_read decode parse cache_size rnd self inp b = Inr (st, b')"
proof (cases inp)
  case ReadError
  then show ?thesis by (simp add: on_read_def)
next
  case (Line raw)
  show ?thesis
  proof (cases "parse (strip_cr raw)")
    case None
    with Line show ?thesis by (auto simp: on_read_def Let_def)
  next
    case (Some val)
    with Line assms show ?thesis
      by (cases val) (auto simp: on_read_def record_command_def Let_def split: if_splits)
  qed
qed

lemma record_command_verified:
  assumes "record_command decode parse inp = Some cmd"
  shows "verify_command cmd"
proof (cases inp)
  case ReadError
  with assms show ?thesis by (simp add: record_command_def)
next
  case (Line raw)
  show ?thesis
  proof (cases "parse (strip_cr raw)")
    case None
    with Line assms show ?thesis by (simp add: record_command_def Let_def split: if_splits)
  next
    case (Some val)
    with Line assms show ?thesis
      by (cases val) (auto simp: record_command_def Let_def split: if_splits)
  qed
qed

lemma handle_command_returns:
  assumes "verify_command cmd" and "cache_inv b" and "0 \<le> cache_size"
    and "\<And>t. is_send_to t cmd \<Longrightarrow> next_index b t \<noteq> INT_MAX"
  shows "\<exists>b'. handle_command cache_size rnd self cmd b = Inr b'"
  using assms(1)
proof (cases rule: schema_command)
  case (subscribe t)
  let ?kept = "kept (last_seen_of cmd) (cache_of b t)"
  have st: "\<forall>m \<in> set (cache_of b t). stamped m" using cache_invD(3) [OF assms(2)] by blast
  have "length ?kept < 2147483648"
    using length_kept [of "last_seen_of cmd" "cache_of b t"] cache_inv_length [OF assms(2), of t]
    by simp
  then have "trim_cache cache_size ?kept = Inr (drop (length ?kept - nat cache_size) ?kept)"
    using assms(3) by (intro trim_cache_nonneg)
  then show ?thesis
    by (simp add: handle_command_subscribe [OF subscribe(1)]
        handle_subscribe_cases [OF subscribe(2,3,4) st])
next
  case (unsubscribe t)
  then show ?thesis
    by (simp add: handle_command_unsubscribe handle_unsubscribe_result)
next
  case (send t d)
  then have "is_send_to t cmd" by (simp add: is_send_to_def)
  then have ni: "next_index b t \<noteq> INT_MAX" by (rule assms(4))
  have "int (length (cache_of b t)) < INT_MAX"
    using cache_inv_length_le [OF assms(2), of t] cache_invD(2) [OF assms(2), of t] ni by simp
  then have "length (cache_of b t) < 2147483647" by (simp add: INT_MAX_def)
  from trim_append [OF assms(3) this] ni show ?thesis
    by (simp add: handle_command_send [OF send(1)] handle_send_cases [OF send(2,3,4)])
qed

lemma on_read_returns:
  assumes "0 \<le> cache_size" and "cache_inv b"
    and "\<And>t. send_event decode parse t (self, inp, rnd) \<Longrightarrow> next_index b t \<noteq> INT_MAX"
  shows "\<exists>st b'. on_read decode parse cache_size rnd self inp b = Inr (st, b')"
proof (cases "record_command decode parse inp")
  case None
  then show ?thesis by (rule on_read_no_command)
next
  case (Some cmd)
  have "\<exists>b'. handle_command cache_size rnd self cmd b = Inr b'"
  proof (rule handle_command_returns [OF record_command_verified [OF Some] assms(2,1)])
    fix t
    assume "is_send_to t cmd"
    then have "send_event decode parse t (self, inp, rnd)" by (simp add: send_event_def Some)
    then show "next_index b t \<noteq> INT_MAX" by (rule assms(3))
  qed
  then obtain b' where "handle_command cache_size rnd self cmd b = Inr b'" ..
  then have "on_read decode parse cache_size rnd self inp b = Inr (Reading, b')"
    by (subst on_read_record) (simp add: Some)
  then show ?thesis by blast
qed

lemma run_returns:
  assumes "0 \<le> cache_size"
  shows "cache_inv b \<Longrightarrow>
         (\<And>t. next_index b t + int (sends_to decode parse t evs) \<le> INT_MAX) \<Longrightarrow>
         \<exists>b'. run decode parse cache_size evs b = Inr b'"
proof (induction evs arbitrary: b)
  case Nil
  then show ?case by simp
next
  case (Cons ev evs)
  obtain self inp rnd where ev: "ev = (self, inp, rnd)" by (cases ev)
  have "\<exists>st b1. on_read decode parse cache_size rnd self inp b = Inr (st, b1)"
  proof (rule on_read_returns [OF assms Cons.prems(1)])
    fix t
    assume "send_event decode parse t (self, inp, rnd)"
    then show "next_index b t \<noteq> INT_MAX"
      using Cons.prems(2) [of t] by (simp add: ev sends_to_Cons)
  qed
  then obtain st b1 where s: "on_read decode parse cache_size rnd self inp b = Inr (st, b1)"
    by blast
  have "\<exists>b'. run decode parse cache_size evs b1 = Inr b'"
  proof (rule Cons.IH [OF cache_inv_on_read [OF Cons.prems(1) s]])
    fix t
    show "next_index b1 t + int (sends_to decode parse t evs) \<le> INT_MAX"
      using Cons.prems(2) [of t] index_step [OF s, of t, THEN conjunct1]
      by (simp add: ev sends_to_Cons split: if_splits)
  qed
  then show ?case by (simp add: ev s)
qed

lemma sends_to_le: "sends_to decode parse t evs \<le> length evs"
  by (simp add: sends_to_def)

lemma sample_send_events:
  "send_event utf_to_utf_char32 sample_parse ''t'' (s, Line send_all_text, r)"
  "send_event utf_to_utf_char32 sample_parse ''t'' (s, Line send_one_text, r)"
  by (simp_all add: send_event_def record_command_def sample_send_all sample_send_one
      is_send_to_def send_all_fields send_one_fields)

subsection \<open>The sample subscriber\<close>

lemma one_subscribed_sel [simp]:
  "cache_of one_subscribed u = []" "next_index one_subscribed u = 0"
  "subscribers one_subscribed ''t'' = [8]" "subscriptions one_subscribed 8 = [''t'']"
  "written one_subscribed = [(8, success)]"
  by (simp_all add: one_subscribed_def cache_of_def next_index_def subscribers_def
      subscriptions_def)

lemma one_subscribed_state:
  "(registered 8 ''t'' init)\<lparr>caches := (caches init)(''t'' \<mapsto> []), written := [(8, success)]\<rparr> =
   one_subscribed"
  by (simp add: registered_def init_def one_subscribed_def subscribers_def subscriptions_def)

lemma one_subscribed_run:
  "run utf_to_utf_char32 sample_parse 100 [(8, Line subscribe_text, 0)] init = Inr one_subscribed"
  by (simp add: on_read_subscribe subscribe_first one_subscribed_state)

subsection \<open>A send with delivery one\<close>

lemma send_one_cache:
  assumes "verify_command cmd"
    and "map_of cmd ''command'' = Some (JString ''send'')"
    and "map_of cmd ''topic'' = Some (JString t)"
    and "map_of cmd ''delivery'' = Some (JString ''one'')"
    and "next_index b t \<noteq> INT_MAX"
    and "0 \<le> cache_size"
    and "length (cache_of b t) < 2147483647"
  shows "\<exists>b'. handle_send cache_size rnd self cmd b = Inr (stamp cmd (next_index b t), b') \<and>
           delivery_of (stamp cmd (next_index b t)) = JString ''one'' \<and>
           cache_of b' t =
             (if subscribers b t = [] \<and> wants_cache cmd
              then drop (Suc (length (cache_of b t)) - nat cache_size)
                     (cache_of b t @ [stamp cmd (next_index b t)])
              else cache_of b t) \<and>
           (\<forall>u. u \<noteq> t \<longrightarrow> cache_of b' u = cache_of b u)"
proof -
  have "delivery_of cmd = JString ''one''"
    using assms(4) by (simp add: delivery_of_def)
  then have d: "delivery_of (stamp cmd (next_index b t)) = JString ''one''"
    by simp
  show ?thesis
  proof (cases "subscribers b t = [] \<and> wants_cache cmd")
    case True
    then show ?thesis
      using assms(5) d trim_append [OF assms(6,7)]
      by (simp add: handle_send_cases [OF assms(3,4) schema_send(3) [OF assms(1,2)]])
  next
    case False
    then show ?thesis
      using assms(5) d
      by (auto simp: handle_send_cases [OF assms(3,4) schema_send(3) [OF assms(1,2)]])
  qed
qed

lemma send_one_written:
  assumes "verify_command cmd"
    and "map_of cmd ''command'' = Some (JString ''send'')"
    and "map_of cmd ''topic'' = Some (JString t)"
    and "map_of cmd ''delivery'' = Some (JString ''one'')"
    and "next_index b t \<noteq> INT_MAX"
    and "0 \<le> cache_size"
    and "length (cache_of b t) < 2147483647"
  shows "\<exists>b'. handle_send cache_size rnd self cmd b = Inr (stamp cmd (next_index b t), b') \<and>
           next_index b' t = next_index b t + 1 \<and>
           (subscribers b t = [] \<longrightarrow>
              written b' = written b @ [(self, success)] \<and>
              (wants_cache cmd \<and> 0 < cache_size \<longrightarrow>
                 cache_of b' t \<noteq> [] \<and> last (cache_of b' t) = stamp cmd (next_index b t)) \<and>
              (\<not> wants_cache cmd \<longrightarrow> cache_of b' t = cache_of b t)) \<and>
           (subscribers b t \<noteq> [] \<longrightarrow>
              (\<exists>r \<in> set (subscribers b t).
                 written b' = written b @ [(r, stamp cmd (next_index b t)), (self, success)]) \<and>
              cache_of b' t = cache_of b t)"
proof (cases "subscribers b t = []")
  case True
  show ?thesis
  proof (cases "wants_cache cmd")
    case w: True
    have "0 < cache_size \<Longrightarrow> Suc (length (cache_of b t)) - nat cache_size \<le> length (cache_of b t)"
      by simp
    then show ?thesis
      using True w assms(5) trim_append [OF assms(6,7)]
      by (simp add: handle_send_cases [OF assms(3,4) schema_send(3) [OF assms(1,2)]]
          recipients_of_def)
  next
    case False
    then show ?thesis
      using True assms(5)
      by (simp add: handle_send_cases [OF assms(3,4) schema_send(3) [OF assms(1,2)]]
          recipients_of_def)
  qed
next
  case False
  then have "subscribers b t ! (rnd mod length (subscribers b t)) \<in> set (subscribers b t)"
    by simp
  then show ?thesis
    using False assms(5)
    by (simp add: handle_send_cases [OF assms(3,4) schema_send(3) [OF assms(1,2)]]
        recipients_of_def)
qed

lemma send_cached_prunes:
  assumes "\<forall>m \<in> set (cache_of b t). stamped m"
    and "0 \<le> cache_size"
    and "length (cache_of b t) < 2147483648"
  shows "\<exists>b'. send_cached cache_size s t k b = Inr b' \<and>
           kept k (cache_of b t) =
             filter (\<lambda>m. index_of m \<le> k \<or> delivery_of m = JString ''all'') (cache_of b t) \<and>
           cache_of b' t =
             drop (length (kept k (cache_of b t)) - nat cache_size) (kept k (cache_of b t)) \<and>
           length (cache_of b' t) \<le> nat cache_size \<and>
           subseq (kept k (cache_of b t)) (cache_of b t) \<and>
           (\<forall>u. u \<noteq> t \<longrightarrow> cache_of b' u = cache_of b u)"
proof -
  let ?kept = "kept k (cache_of b t)"
  have "length ?kept < 2147483648"
    using length_kept [of k "cache_of b t"] assms(3) by simp
  then have "trim_cache cache_size ?kept = Inr (drop (length ?kept - nat cache_size) ?kept)"
    using assms(2) by (intro trim_cache_nonneg)
  then show ?thesis
    by (simp add: send_cached_stamped [OF assms(1)] cache_of_def kept_def)
qed

section \<open>The claims\<close>

text \<open>
  Claim C1, amended. In every state a run reaches, with a capacity \<open>cache_size \<ge> 0\<close>
  and the topic's counter below \<open>INT_MAX\<close>, a send command with delivery \<open>one\<close>
  returns, and it is appended to the replay cache of its topic exactly when the topic
  has no subscriber and the command's \<open>cache\<close> flag is absent or true (the cache is
  then trimmed to the capacity); when the topic has a subscriber the caches stay as
  they are, whatever the flag. So a cached message has delivery \<open>all\<close>, or delivery
  \<open>one\<close> and was sent while nobody subscribed.
\<close>

theorem one_delivery_caching:
  assumes "run decode parse cache_size evs init = Inr b"
    and "verify_command cmd"
    and "map_of cmd ''command'' = Some (JString ''send'')"
    and "map_of cmd ''topic'' = Some (JString t)"
    and "map_of cmd ''delivery'' = Some (JString ''one'')"
    and "next_index b t \<noteq> INT_MAX"
    and "0 \<le> cache_size"
  shows "\<exists>b'. handle_send cache_size rnd self cmd b = Inr (stamp cmd (next_index b t), b') \<and>
           delivery_of (stamp cmd (next_index b t)) = JString ''one'' \<and>
           cache_of b' t =
             (if subscribers b t = [] \<and> wants_cache cmd
              then drop (Suc (length (cache_of b t)) - nat cache_size)
                     (cache_of b t @ [stamp cmd (next_index b t)])
              else cache_of b t) \<and>
           (\<forall>u. u \<noteq> t \<longrightarrow> cache_of b' u = cache_of b u)"
proof -
  have inv: "cache_inv b" by (rule cache_inv_run [OF cache_inv_init assms(1)])
  have "int (length (cache_of b t)) < INT_MAX"
    using cache_inv_length_le [OF inv, of t] cache_invD(2) [OF inv, of t] assms(6) by simp
  then have "length (cache_of b t) < 2147483647" by (simp add: INT_MAX_def)
  with assms(2-7) show ?thesis by (intro send_one_cache)
qed

text \<open>
  The claim as stated fails: session 7 sends the sample \<open>one\<close> message to a topic
  without subscribers, and the message is in the topic's replay cache afterwards.
\<close>

theorem one_cached_counterexample:
  "run utf_to_utf_char32 sample_parse 100 [(7, Line send_one_text, 0)] init =
     Inr (after_send 7 ''t'' (stamp send_one 0) [] (Some [stamp send_one 0]) init) \<and>
   cache_of (after_send 7 ''t'' (stamp send_one 0) [] (Some [stamp send_one 0]) init) ''t'' =
     [stamp send_one 0] \<and>
   delivery_of (stamp send_one 0) = JString ''one''"
  by (simp add: on_read_send_one send_one_first send_one_fields)

theorem one_delivery_caching_witness:
  "handle_send 100 0 7 send_one init =
     Inr (stamp send_one 0,
          after_send 7 ''t'' (stamp send_one 0) [] (Some [stamp send_one 0]) init) \<and>
   delivery_of (stamp send_one 0) = JString ''one''"
proof -
  have "run utf_to_utf_char32 sample_parse 100 [] init = Inr init"
    "next_index init ''t'' \<noteq> INT_MAX" "(0 :: int) \<le> 100"
    by (simp_all add: INT_MAX_def)
  from one_delivery_caching [OF this(1) sample_send_one(6) send_one_fields(1,2,3) this(2,3),
      of 0 7]
  show ?thesis
    by (simp add: send_one_first send_one_fields)
qed

text \<open>
  Claim C2, amended. In every state a run reaches, with a capacity \<open>cache_size \<ge> 0\<close>
  and the topic's counter below \<open>INT_MAX\<close>, a send command with delivery \<open>one\<close>
  returns, the topic's next index goes up by one and the publisher gets the success
  reply, last. With no subscriber
  nothing else is written; the message is dropped only when its \<open>cache\<close> flag is
  false (or the capacity is 0): otherwise it is the newest entry of the topic's replay
  cache, from where a later catch-up replays it. With subscribers exactly one write
  carries the message, to a member of the subscriber set, and the cache is untouched.
\<close>

theorem one_delivery_recipients:
  assumes "run decode parse cache_size evs init = Inr b"
    and "verify_command cmd"
    and "map_of cmd ''command'' = Some (JString ''send'')"
    and "map_of cmd ''topic'' = Some (JString t)"
    and "map_of cmd ''delivery'' = Some (JString ''one'')"
    and "next_index b t \<noteq> INT_MAX"
    and "0 \<le> cache_size"
  shows "\<exists>b'. handle_send cache_size rnd self cmd b = Inr (stamp cmd (next_index b t), b') \<and>
           next_index b' t = next_index b t + 1 \<and>
           (subscribers b t = [] \<longrightarrow>
              written b' = written b @ [(self, success)] \<and>
              (wants_cache cmd \<and> 0 < cache_size \<longrightarrow>
                 cache_of b' t \<noteq> [] \<and> last (cache_of b' t) = stamp cmd (next_index b t)) \<and>
              (\<not> wants_cache cmd \<longrightarrow> cache_of b' t = cache_of b t)) \<and>
           (subscribers b t \<noteq> [] \<longrightarrow>
              (\<exists>r \<in> set (subscribers b t).
                 written b' = written b @ [(r, stamp cmd (next_index b t)), (self, success)]) \<and>
              cache_of b' t = cache_of b t)"
proof -
  have inv: "cache_inv b" by (rule cache_inv_run [OF cache_inv_init assms(1)])
  have "int (length (cache_of b t)) < INT_MAX"
    using cache_inv_length_le [OF inv, of t] cache_invD(2) [OF inv, of t] assms(6) by simp
  then have "length (cache_of b t) < 2147483647" by (simp add: INT_MAX_def)
  with assms(2-7) show ?thesis by (intro send_one_written)
qed

text \<open>
  The claim as stated fails: the \<open>one\<close> message session 7 sends to a topic without
  subscribers is not dropped; session 8, subscribing afterwards, receives it.
\<close>

theorem one_not_dropped_counterexample:
  "subscribers init ''t'' = [] \<and>
   map_sum id written
     (run utf_to_utf_char32 sample_parse 100
        [(7, Line send_one_text, 0), (8, Line subscribe_text, 0)] init) =
     Inr [(7, success), (8, success), (8, stamp send_one 0)]"
  by (simp add: on_read_send_one send_one_first on_read_subscribe subscribe_after_one)

theorem one_delivery_recipients_witness:
  "(\<exists>b'. handle_send 100 0 7 send_one init = Inr (stamp send_one 0, b') \<and>
         next_index b' ''t'' = 1 \<and> written b' = [(7, success)] \<and>
         last (cache_of b' ''t'') = stamp send_one 0) \<and>
   (\<exists>b'. handle_send 100 0 7 send_one one_subscribed = Inr (stamp send_one 0, b') \<and>
         next_index b' ''t'' = 1 \<and>
         written b' = [(8, success), (8, stamp send_one 0), (7, success)] \<and>
         cache_of b' ''t'' = [])"
proof -
  have h: "run utf_to_utf_char32 sample_parse 100 [] init = Inr init"
    "next_index init ''t'' \<noteq> INT_MAX" "(0 :: int) \<le> 100"
    "next_index one_subscribed ''t'' \<noteq> INT_MAX"
    by (simp_all add: INT_MAX_def)
  show ?thesis
    using one_delivery_recipients
        [OF h(1) sample_send_one(6) send_one_fields(1,2,3) h(2,3), of 0 7]
      one_delivery_recipients
        [OF one_subscribed_run sample_send_one(6) send_one_fields(1,2,3) h(4,3), of 0 7]
    by (auto simp: send_one_fields)
qed

text \<open>
  Claim C3, amended. With an argument count outside 0, 1, 2 (\<open>argc\<close> outside 1, 2, 3)
  \<open>main\<close> writes the usage text to standard error and returns 1. An argument that
  \<open>std::stoi\<close> rejects is not answered with the usage text: the exception of
  \<open>std::stoi\<close> leaves \<open>main\<close> uncaught.
\<close>

theorem usage_on_argument_count:
  "(length argv \<noteq> 1 \<and> length argv \<noteq> 2 \<and> length argv \<noteq> 3 \<longrightarrow> main argv = Exit 1 usage) \<and>
   ((length argv = 2 \<or> length argv = 3) \<and> stoi (argv ! 1) = Inl e \<longrightarrow>
      main argv = Uncaught e) \<and>
   (length argv = 3 \<and> stoi (argv ! 1) = Inr port \<and> stoi (argv ! 2) = Inl e \<longrightarrow>
      main argv = Uncaught e)"
  by (auto simp: main_def)

text \<open>
  The claim as stated fails for a non-numeric port: no usage text, no exit status 1.
\<close>

theorem non_numeric_port_counterexample:
  "main [''aiomemq'', ''abc''] = Uncaught InvalidArgument \<and>
   main [''aiomemq'', ''abc''] \<noteq> Exit 1 usage"
  by (simp add: main_def stoi_abc)

theorem usage_on_argument_count_witness:
  "main [''aiomemq'', ''7000'', ''100'', ''extra''] = Exit 1 usage \<and>
   main [''aiomemq'', ''abc''] = Uncaught InvalidArgument \<and>
   main [''aiomemq'', ''7000'', ''abc''] = Uncaught InvalidArgument"
  using usage_on_argument_count [where argv = "[''aiomemq'', ''7000'', ''100'', ''extra'']"]
    usage_on_argument_count [where argv = "[''aiomemq'', ''abc'']" and e = InvalidArgument]
    usage_on_argument_count [where argv = "[''aiomemq'', ''7000'', ''abc'']"
      and e = InvalidArgument and port = 7000]
    stoi_abc stoi_7000
  by simp

text \<open>
  Claim C4, amended. In every state a run reaches, a subscribe command with \<open>cache\<close>
  absent or true is answered by the success reply followed by the replayed messages and
  nothing else. The replayed messages are the cached messages of the topic, in cache
  order and each once, whose index exceeds the mark: \<open>-1\<close> when \<open>last_seen\<close> is
  absent, else \<open>last_seen\<close> narrowed to 32 bits, which is \<open>last_seen\<close> itself when that
  is within the range of \<open>int\<close>. Their indices strictly increase.
\<close>

theorem replay_after_success:
  assumes "run decode parse cache_size evs init = Inr b"
    and "verify_command cmd"
    and "map_of cmd ''command'' = Some (JString ''subscribe'')"
    and "map_of cmd ''topic'' = Some (JString t)"
    and "wants_cache cmd"
    and "0 \<le> cache_size"
  shows "\<exists>b'. handle_subscribe cache_size self cmd b = Inr b' \<and>
           written b' =
             written b @ (self, success) #
               map (Pair self) (unseen (last_seen_of cmd) (cache_of b t)) \<and>
           unseen (last_seen_of cmd) (cache_of b t) =
             filter (\<lambda>m. index_of m > last_seen_of cmd) (cache_of b t) \<and>
           sorted_wrt (<) (map index_of (unseen (last_seen_of cmd) (cache_of b t))) \<and>
           distinct (unseen (last_seen_of cmd) (cache_of b t)) \<and>
           (map_of cmd ''last_seen'' = None \<longrightarrow> last_seen_of cmd = - 1) \<and>
           (\<forall>k. map_of cmd ''last_seen'' = Some (JInt64 k) \<longrightarrow>
                last_seen_of cmd = to_int32 k \<and>
                (- 2147483648 \<le> k \<and> k \<le> 2147483647 \<longrightarrow> last_seen_of cmd = k))"
proof -
  have inv: "cache_inv b" by (rule cache_inv_run [OF cache_inv_init assms(1)])
  let ?q = "cache_of b t"
  let ?k = "last_seen_of cmd"
  from assms(2) have f: "field_opt cmd ''last_seen'' KInt64" "field_opt cmd ''cache'' KBool"
    using assms(3) by (cases rule: schema_command; simp)+
  have st: "\<forall>m \<in> set ?q. stamped m" using cache_invD(3) [OF inv] by blast
  have "length (kept ?k ?q) < 2147483648"
    using length_kept [of ?k ?q] cache_inv_length [OF inv, of t] by simp
  then have "trim_cache cache_size (kept ?k ?q) =
               Inr (drop (length (kept ?k ?q) - nat cache_size) (kept ?k ?q))"
    using assms(6) by (intro trim_cache_nonneg)
  then have r: "\<exists>b'. handle_subscribe cache_size self cmd b = Inr b' \<and>
      written b' = written b @ (self, success) # map (Pair self) (unseen ?k ?q)"
    using assms(5) by (simp add: handle_subscribe_cases [OF assms(4) f st])
  have s: "sorted_wrt (<) (map index_of (unseen ?k ?q))"
    unfolding unseen_def using cache_invD(5) [OF inv, of t] by (rule sorted_indices_filter)
  then have "distinct (map index_of (unseen ?k ?q))" by (simp add: strict_sorted_iff)
  then have d: "distinct (unseen ?k ?q)" by (simp add: distinct_map)
  have l: "map_of cmd ''last_seen'' = None \<longrightarrow> ?k = - 1"
    "\<forall>k. map_of cmd ''last_seen'' = Some (JInt64 k) \<longrightarrow>
         ?k = to_int32 k \<and> (- 2147483648 \<le> k \<and> k \<le> 2147483647 \<longrightarrow> ?k = k)"
    by (simp_all add: last_seen_of_def to_int32_id)
  have u: "unseen ?k ?q = filter (\<lambda>m. index_of m > ?k) ?q" by (simp add: unseen_def)
  from r obtain b' where hb: "handle_subscribe cache_size self cmd b = Inr b'"
    and wb: "written b' = written b @ (self, success) # map (Pair self) (unseen ?k ?q)"
    by blast
  show ?thesis by (rule exI [of _ b']) (intro conjI hb wb u s d l)
qed

text \<open>
  The claim as stated fails for a mark outside the range of \<open>int\<close>: after three sends
  the subscribe command with \<open>last_seen = 2^32\<close> is replayed the messages with indices
  1 and 2, which do not exceed its mark.
\<close>

theorem replay_beyond_mark_counterexample:
  "map_of subscribe_far ''last_seen'' = Some (JInt64 4294967296) \<and>
   map_sum id written
     (run utf_to_utf_char32 sample_parse 100
        [(7, Line send_all_text, 0), (7, Line send_one_text, 0), (7, Line send_all_text, 0),
         (8, Line subscribe_far_text, 0)] init) =
     Inr [(7, success), (7, success), (7, success), (8, success),
          (8, stamp send_one 1), (8, stamp send_all 2)] \<and>
   index_of (stamp send_one 1) = 1 \<and> \<not> index_of (stamp send_one 1) > 4294967296"
proof -
  have "run utf_to_utf_char32 sample_parse 100
          ([(7, Line send_all_text, 0), (7, Line send_one_text, 0), (7, Line send_all_text, 0)]
           @ [(8, Line subscribe_far_text, 0)]) init =
        run utf_to_utf_char32 sample_parse 100 [(8, Line subscribe_far_text, 0)] three_sent"
    by (simp only: run_append three_sent_run sum.case)
  then show ?thesis
    by (simp add: on_read_subscribe_far subscribe_far_on_three subscribe_far_fields)
qed

theorem replay_after_success_witness:
  "\<exists>b'. handle_subscribe 100 8 subscribe three_sent = Inr b' \<and>
        written b' =
          [(7, success), (7, success), (7, success), (8, success),
           (8, stamp send_all 0), (8, stamp send_one 1), (8, stamp send_all 2)]"
  using replay_after_success [OF three_sent_run sample_subscribe(6) subscribe_fields(1,2,5),
      of 8]
  by (auto simp: subscribe_fields unseen_def)

text \<open>
  Claim C5. In every state a run reaches, the entries of a cache are stamped and fewer
  than \<open>2^31\<close>. On such a cache and with a capacity \<open>cache_size \<ge> 0\<close>, catch-up and
  prune for topic \<open>t\<close> with mark \<open>k\<close> returns; the new cache of \<open>t\<close> is what is left
  of the entries \<open>m\<close> with \<open>index m \<le> k\<close> or \<open>delivery m = "all"\<close>, in their order,
  after the first ones are dropped down to the capacity. The other caches are
  untouched.
\<close>

theorem catch_up_and_prune:
  "(run decode parse cache_size evs init = Inr b \<longrightarrow>
      (\<forall>m \<in> set (cache_of b t). stamped m) \<and> length (cache_of b t) < 2147483648) \<and>
   ((\<forall>m \<in> set (cache_of b t). stamped m) \<and> 0 \<le> cache_size \<and>
    length (cache_of b t) < 2147483648 \<longrightarrow>
      (\<exists>b'. send_cached cache_size s t k b = Inr b' \<and>
         kept k (cache_of b t) =
           filter (\<lambda>m. index_of m \<le> k \<or> delivery_of m = JString ''all'') (cache_of b t) \<and>
         cache_of b' t =
           drop (length (kept k (cache_of b t)) - nat cache_size) (kept k (cache_of b t)) \<and>
         length (cache_of b' t) \<le> nat cache_size \<and>
         subseq (kept k (cache_of b t)) (cache_of b t) \<and>
         (\<forall>u. u \<noteq> t \<longrightarrow> cache_of b' u = cache_of b u)))"
proof (intro conjI impI)
  assume "run decode parse cache_size evs init = Inr b"
  then have inv: "cache_inv b" by (rule cache_inv_run [OF cache_inv_init])
  show "\<forall>m \<in> set (cache_of b t). stamped m" using cache_invD(3) [OF inv] by blast
  show "length (cache_of b t) < 2147483648" by (rule cache_inv_length [OF inv])
next
  assume "(\<forall>m \<in> set (cache_of b t). stamped m) \<and> 0 \<le> cache_size \<and>
    length (cache_of b t) < 2147483648"
  then show "\<exists>b'. send_cached cache_size s t k b = Inr b' \<and>
         kept k (cache_of b t) =
           filter (\<lambda>m. index_of m \<le> k \<or> delivery_of m = JString ''all'') (cache_of b t) \<and>
         cache_of b' t =
           drop (length (kept k (cache_of b t)) - nat cache_size) (kept k (cache_of b t)) \<and>
         length (cache_of b' t) \<le> nat cache_size \<and>
         subseq (kept k (cache_of b t)) (cache_of b t) \<and>
         (\<forall>u. u \<noteq> t \<longrightarrow> cache_of b' u = cache_of b u)"
    by (intro send_cached_prunes) simp_all
qed

theorem catch_up_and_prune_witness:
  "list_all stamped (cache_of three_sent ''t'') \<and>
   (\<exists>b'. send_cached 1 8 ''t'' 0 three_sent = Inr b' \<and>
         kept 0 (cache_of three_sent ''t'') = [stamp send_all 0, stamp send_all 2] \<and>
         cache_of b' ''t'' = [stamp send_all 2])"
proof -
  from catch_up_and_prune [of utf_to_utf_char32 sample_parse 100 _ three_sent "''t''"] three_sent_run
  have st: "\<forall>m \<in> set (cache_of three_sent ''t''). stamped m" by blast
  with catch_up_and_prune [of _ _ 1 _ three_sent "''t''" 8 0]
  have "\<exists>b'. send_cached 1 8 ''t'' 0 three_sent = Inr b' \<and>
         kept 0 (cache_of three_sent ''t'') = [stamp send_all 0, stamp send_all 2] \<and>
         cache_of b' ''t'' = [stamp send_all 2]"
    by (auto simp: kept_def send_all_fields send_one_fields)
  with st show ?thesis by (simp only: list_all_iff)
qed

text \<open>
  Claim C6. Along a run from the empty broker that ends in a state, the next index of
  every topic is the number of send commands to the topic the run has handled, and the
  indices stamped on those commands are 0, 1, 2, ... in the order they were handled:
  every send counts, whatever its delivery mode, its \<open>cache\<close> flag and its recipients.
  With a capacity \<open>cache_size \<ge> 0\<close> a run ends in a state as long as no topic is sent
  more commands than an \<open>int\<close> counts.
\<close>

theorem indices_count_sends:
  "(run decode parse cache_size evs init = Inr b \<longrightarrow>
      next_index b t = int (sends_to decode parse t evs) \<and>
      assigned decode parse cache_size t evs init = map int [0..<sends_to decode parse t evs]) \<and>
   (0 \<le> cache_size \<and> (\<forall>u. int (sends_to decode parse u evs) \<le> INT_MAX) \<longrightarrow>
      (\<exists>b'. run decode parse cache_size evs init = Inr b'))"
proof (intro conjI impI)
  assume "run decode parse cache_size evs init = Inr b"
  from counting [OF this, of t]
  show "next_index b t = int (sends_to decode parse t evs)"
    and "assigned decode parse cache_size t evs init = map int [0..<sends_to decode parse t evs]"
    by simp_all
next
  assume a: "0 \<le> cache_size \<and> (\<forall>u. int (sends_to decode parse u evs) \<le> INT_MAX)"
  then have "0 \<le> cache_size" by simp
  then show "\<exists>b'. run decode parse cache_size evs init = Inr b'"
    using a by (intro run_returns [OF _ cache_inv_init]) simp_all
qed

theorem indices_count_sends_witness:
  "run utf_to_utf_char32 sample_parse 100
     [(7, Line send_all_text, 0), (7, Line send_one_text, 0), (7, Line send_all_text, 0)] init =
     Inr three_sent \<and>
   next_index three_sent ''t'' = 3 \<and>
   assigned utf_to_utf_char32 sample_parse 100 ''t''
     [(7, Line send_all_text, 0), (7, Line send_one_text, 0), (7, Line send_all_text, 0)] init =
     [0, 1, 2] \<and>
   (\<exists>b'. run utf_to_utf_char32 sample_parse 0
          [(7, Line send_all_text, 0), (7, Line send_one_text, 0), (7, Line send_all_text, 0)]
          init = Inr b')"
proof -
  let ?evs = "[(7, Line send_all_text, 0), (7, Line send_one_text, 0),
               (7 :: session, Line send_all_text, 0 :: nat)]"
  have n: "sends_to utf_to_utf_char32 sample_parse ''t'' ?evs = 3"
    by (simp add: sends_to_def sample_send_events)
  have m: "map int [0..<3] = [0, 1, 2]" by (simp add: numeral_3_eq_3)
  from indices_count_sends [of utf_to_utf_char32 sample_parse 100 ?evs three_sent "''t''"]
    three_sent_run
  have "next_index three_sent ''t'' = int (sends_to utf_to_utf_char32 sample_parse ''t'' ?evs)"
    "assigned utf_to_utf_char32 sample_parse 100 ''t'' ?evs init =
       map int [0..<sends_to utf_to_utf_char32 sample_parse ''t'' ?evs]"
    by blast+
  then have "next_index three_sent ''t'' = 3"
    "assigned utf_to_utf_char32 sample_parse 100 ''t'' ?evs init = [0, 1, 2]"
    unfolding n m by simp_all
  moreover have "\<forall>u. int (sends_to utf_to_utf_char32 sample_parse u ?evs) \<le> INT_MAX"
  proof
    fix u
    show "int (sends_to utf_to_utf_char32 sample_parse u ?evs) \<le> INT_MAX"
      using sends_to_le [of utf_to_utf_char32 sample_parse u ?evs] by (simp add: INT_MAX_def)
  qed
  with indices_count_sends [of utf_to_utf_char32 sample_parse 0 ?evs]
  have "\<exists>b'. run utf_to_utf_char32 sample_parse 0 ?evs init = Inr b'" by blast
  ultimately show ?thesis using three_sent_run by (intro conjI)
qed

text \<open>
  Claim C7. The registry is consistent when every session is in the forward set of
  exactly the topics of its reverse set. Subscribe, unsubscribe and the purge of
  \<open>cleanup\<close> keep it consistent, so it is consistent in every state a run reaches.
  After \<open>cleanup\<close> on a consistent registry the session is in no forward set; in
  particular after a read error or \<open>quit\<close> in a reachable state.
\<close>

theorem registry_stays_consistent:
  "(registry_consistent b \<and> handle_subscribe cache_size self cmd b = Inr b' \<longrightarrow>
      registry_consistent b') \<and>
   (registry_consistent b \<and> handle_unsubscribe self cmd b = Inr b' \<longrightarrow>
      registry_consistent b') \<and>
   (registry_consistent b \<longrightarrow>
      registry_consistent (cleanup self b) \<and>
      (\<forall>t. self \<notin> set (subscribers (cleanup self b) t))) \<and>
   (run decode parse cache_size evs init = Inr b \<longrightarrow> registry_consistent b) \<and>
   (run decode parse cache_size evs init = Inr b \<and> (inp = ReadError \<or> inp = Line ''quit'') \<longrightarrow>
      on_read decode parse cache_size rnd self inp b = Inr (Closed, cleanup self b) \<and>
      registry_consistent (cleanup self b) \<and>
      (\<forall>t. self \<notin> set (subscribers (cleanup self b) t)))"
proof (intro conjI impI allI)
  assume "registry_consistent b \<and> handle_subscribe cache_size self cmd b = Inr b'"
  then show "registry_consistent b'" by (blast intro: registry_subscribe)
next
  assume "registry_consistent b \<and> handle_unsubscribe self cmd b = Inr b'"
  then show "registry_consistent b'" by (blast intro: registry_unsubscribe)
next
  assume "registry_consistent b"
  then show "registry_consistent (cleanup self b)" by (rule registry_cleanup(1))
next
  fix t
  assume "registry_consistent b"
  then show "self \<notin> set (subscribers (cleanup self b) t)" by (rule registry_cleanup(2))
next
  assume "run decode parse cache_size evs init = Inr b"
  then show "registry_consistent b" by (rule registry_run [OF registry_init])
next
  assume "run decode parse cache_size evs init = Inr b \<and> (inp = ReadError \<or> inp = Line ''quit'')"
  then show "on_read decode parse cache_size rnd self inp b = Inr (Closed, cleanup self b)"
    by (simp add: on_read_closes)
next
  assume "run decode parse cache_size evs init = Inr b \<and> (inp = ReadError \<or> inp = Line ''quit'')"
  then have "run decode parse cache_size evs init = Inr b" by simp
  then have "registry_consistent b" by (rule registry_run [OF registry_init])
  then show "registry_consistent (cleanup self b)" by (rule registry_cleanup(1))
next
  fix t
  assume "run decode parse cache_size evs init = Inr b \<and> (inp = ReadError \<or> inp = Line ''quit'')"
  then have "run decode parse cache_size evs init = Inr b" by simp
  then have "registry_consistent b" by (rule registry_run [OF registry_init])
  then show "self \<notin> set (subscribers (cleanup self b) t)" by (rule registry_cleanup(2))
qed

theorem registry_stays_consistent_witness:
  "run utf_to_utf_char32 sample_parse 100 [(8, Line subscribe_text, 0)] init = Inr one_subscribed \<and>
   handle_subscribe 100 8 subscribe init = Inr one_subscribed \<and>
   registry_consistent one_subscribed \<and>
   subscribers one_subscribed ''t'' = [8] \<and>
   on_read utf_to_utf_char32 sample_parse 100 0 8 (Line ''quit'') one_subscribed =
     Inr (Closed, cleanup 8 one_subscribed) \<and>
   registry_consistent (cleanup 8 one_subscribed) \<and>
   subscribers (cleanup 8 one_subscribed) ''t'' = []"
proof -
  have h: "handle_subscribe 100 8 subscribe init = Inr one_subscribed"
    by (simp add: subscribe_first one_subscribed_state)
  from registry_stays_consistent [of init 100 8 subscribe one_subscribed]
    registry_stays_consistent
      [of one_subscribed 100 8 subscribe one_subscribed utf_to_utf_char32 sample_parse
        "[(8, Line subscribe_text, 0)]" "Line ''quit''" 0]
  have c: "registry_consistent one_subscribed"
    "on_read utf_to_utf_char32 sample_parse 100 0 8 (Line ''quit'') one_subscribed =
       Inr (Closed, cleanup 8 one_subscribed)"
    "registry_consistent (cleanup 8 one_subscribed)"
    "8 \<notin> set (subscribers (cleanup 8 one_subscribed) ''t'')"
    using one_subscribed_run registry_init h by simp_all
  from c(4) have "subscribers (cleanup 8 one_subscribed) ''t'' = []"
    by (simp add: cleanup_lookup split: if_splits)
  with c h one_subscribed_run show ?thesis by simp
qed

text \<open>
  Claim C8. A record that is not well-formed UTF-8 is to be answered with the reason
  \<open>Could not decode input as UTF-8\<close>. The record made of the one byte \<open>0xFF\<close> (sent
  with a carriage return and a line feed after it) is not well-formed UTF-8, and
  neither empty nor \<open>quit\<close>: the conversion run with \<open>stop\<close> throws on it. \<open>valid_utf8\<close>
  calls the conversion without a method, so with \<open>skip\<close>, under which it returns on
  every record, this one included: the check never fails, the record goes on to the
  parser, and the session is written the reason \<open>Could not parse json\<close> and reads on.
\<close>

theorem ill_formed_utf8_reply:
  "conv_utf_to_utf stop [CHR 0xFF] = None \<and>
   valid_utf8 utf_to_utf_char32 str \<and>
   on_read utf_to_utf_char32 sample_parse 100 0 7 (Line [CHR 0xFF, CHR 0x0D]) init =
     Inr (Reading,
          init\<lparr>written :=
            [(7, [(''success'', JBool False), (''reason'', JString ''Could not parse json'')])]\<rparr>)"
proof -
  have a: "strip_cr [CHR 0xFF, CHR 0x0D] = [CHR 0xFF]" by (simp add: strip_cr_def)
  have p: "sample_parse [CHR 0xFF] = None" by (simp add: sample_parse_def sample_texts)
  have "on_read utf_to_utf_char32 sample_parse 100 0 7 (Line [CHR 0xFF, CHR 0x0D]) init =
     Inr (Reading,
          init\<lparr>written := written init @
            [(7, [(''success'', JBool False), (''reason'', JString ''Could not parse json'')])]\<rparr>)"
    using on_read_replies [where decode = utf_to_utf_char32 and parse = sample_parse
          and cache_size = 100 and rnd = 0 and self = 7 and b = init, OF a]
      valid_utf8_char32 [of "[CHR 0xFF]"] p
    by simp
  then show ?thesis
    using conv_utf_to_utf_stop_FF valid_utf8_char32 [of str] by (simp add: init_def)
qed

text \<open>
  Claim C9. With a capacity \<open>cache_size \<ge> 0\<close>, \<open>trim_cache\<close> returns, and what it
  leaves is the deque without its first \<open>size - cache_size\<close> entries: the most recent
  \<open>min size cache_size\<close> ones. \<open>main\<close> takes whatever \<open>std::stoi\<close> returns as the
  capacity, a negative number too, as for the argument \<open>-1\<close>. With a negative capacity
  the loop condition holds at every size, so \<open>trim_cache\<close> ends in \<open>pop_front\<close> on an
  empty deque, and so does every send that appends to a cache, the first one included.
  The sizes are those at which \<open>static_cast<int>(q.size())\<close> is the size: in every
  state a run reaches a cache is shorter than \<open>2^31\<close>, and shorter than \<open>2^31 - 1\<close>
  where its topic's counter can still be incremented.
\<close>

theorem trim_cache_capacity:
  "(0 \<le> cache_size \<and> length q < 2147483648 \<longrightarrow>
      trim_cache cache_size q = Inr (drop (length q - nat cache_size) q) \<and>
      length (drop (length q - nat cache_size) q) = min (length q) (nat cache_size)) \<and>
   (length argv = 3 \<and> stoi (argv ! 1) = Inr port \<and> stoi (argv ! 2) = Inr c \<longrightarrow>
      main argv = Serving (port mod 65536) c) \<and>
   stoi ''-1'' = Inr (- 1) \<and>
   (c < 0 \<and> length q < 2147483648 \<longrightarrow> trim_cache c q = Inl PopFrontEmpty) \<and>
   (c < 0 \<and> at_string cmd ''topic'' = Inr t \<and> at_string cmd ''delivery'' = Inr d \<and>
    (if contains cmd ''cache'' then at_bool cmd ''cache'' else Inr True) = Inr True \<and>
    (d = ''all'' \<or> subscribers b t = []) \<and> next_index b t \<noteq> INT_MAX \<and>
    length (cache_of b t) < 2147483647 \<longrightarrow>
      handle_send c rnd self cmd b = Inl PopFrontEmpty) \<and>
   (run decode parse cache_size evs init = Inr b \<longrightarrow>
      length (cache_of b t) < 2147483648 \<and>
      (next_index b t \<noteq> INT_MAX \<longrightarrow> length (cache_of b t) < 2147483647))"
proof (intro conjI impI)
  assume "0 \<le> cache_size \<and> length q < 2147483648"
  then show "trim_cache cache_size q = Inr (drop (length q - nat cache_size) q)"
    by (simp add: trim_cache_nonneg)
next
  show "length (drop (length q - nat cache_size) q) = min (length q) (nat cache_size)"
    by simp
next
  assume "length argv = 3 \<and> stoi (argv ! 1) = Inr port \<and> stoi (argv ! 2) = Inr c"
  then show "main argv = Serving (port mod 65536) c"
    by (simp add: main_def)
next
  show "stoi ''-1'' = Inr (- 1)" by (rule stoi_minus_one)
next
  assume "c < 0 \<and> length q < 2147483648"
  then show "trim_cache c q = Inl PopFrontEmpty" by (simp add: trim_cache_negative)
next
  assume "c < 0 \<and> at_string cmd ''topic'' = Inr t \<and> at_string cmd ''delivery'' = Inr d \<and>
    (if contains cmd ''cache'' then at_bool cmd ''cache'' else Inr True) = Inr True \<and>
    (d = ''all'' \<or> subscribers b t = []) \<and> next_index b t \<noteq> INT_MAX \<and>
    length (cache_of b t) < 2147483647"
  then show "handle_send c rnd self cmd b = Inl PopFrontEmpty"
    by (intro handle_send_append_negative [where t = t and d = d]) simp_all
next
  assume "run decode parse cache_size evs init = Inr b"
  then have inv: "cache_inv b" by (rule cache_inv_run [OF cache_inv_init])
  show "length (cache_of b t) < 2147483648" by (rule cache_inv_length [OF inv])
  assume "next_index b t \<noteq> INT_MAX"
  then have "int (length (cache_of b t)) < INT_MAX"
    using cache_inv_length_le [OF inv, of t] cache_invD(2) [OF inv, of t] by simp
  then show "length (cache_of b t) < 2147483647" by (simp add: INT_MAX_def)
qed

theorem trim_cache_capacity_witness:
  "trim_cache 2 [1, 2, 3, 4 :: nat] = Inr [3, 4] \<and>
   main [''aiomemq'', ''7000'', ''-1''] = Serving 7000 (- 1) \<and>
   trim_cache (- 1) [5 :: nat] = Inl PopFrontEmpty \<and>
   handle_send (- 1) 0 7 send_all init = Inl PopFrontEmpty \<and>
   length (cache_of three_sent ''t'') < 2147483647"
proof -
  have s: "at_string send_all ''topic'' = Inr ''t''" "at_string send_all ''delivery'' = Inr ''all''"
    "\<not> contains send_all ''cache''"
    by (simp_all add: send_all_def at_string_def at_def contains_def)
  have i: "next_index init ''t'' \<noteq> INT_MAX" "cache_of init ''t'' = []"
    by (simp_all add: init_def next_index_def cache_of_def INT_MAX_def)
  have a: "length [''aiomemq'', ''7000'', ''-1''] = 3" by simp
  show ?thesis
    using trim_cache_capacity [where cache_size = 2 and q = "[1, 2, 3, 4 :: nat]"
        and argv = "[''aiomemq'', ''7000'', ''-1'']" and port = 7000 and c = "- 1"
        and cmd = send_all and t = "''t''" and d = "''all''" and b = init and rnd = 0 and self = 7]
      trim_cache_capacity [where q = "[5 :: nat]" and c = "- 1"]
      trim_cache_capacity [where decode = utf_to_utf_char32 and parse = sample_parse
        and cache_size = 100 and b = three_sent and t = "''t''", THEN conjunct2]
      three_sent_run s i stoi_7000 stoi_minus_one
    by simp
qed

text \<open>
  Claim C10. \<open>handle_subscribe\<close> reads \<open>last_seen\<close> as a 64-bit integer and narrows
  it to \<open>int\<close>: a command carrying \<open>v\<close> is handled exactly as one carrying \<open>v\<close>
  narrowed to 32 bits. A value within the range of \<open>int\<close> is unchanged by that, while
  \<open>2^32\<close> becomes 0.
\<close>

theorem last_seen_narrowed:
  "(map_of cmd ''last_seen'' = Some (JInt64 v) \<longrightarrow>
      handle_subscribe cache_size self cmd b =
      handle_subscribe cache_size self (AList.update ''last_seen'' (JInt64 (to_int32 v)) cmd) b) \<and>
   (- 2147483648 \<le> v \<and> v \<le> 2147483647 \<longrightarrow> to_int32 v = v) \<and>
   to_int32 4294967296 = 0"
proof (intro conjI impI)
  let ?cmd = "AList.update ''last_seen'' (JInt64 (to_int32 v)) cmd"
  assume v: "map_of cmd ''last_seen'' = Some (JInt64 v)"
  have k: "at_string ?cmd ''topic'' = at_string cmd ''topic''"
    "contains ?cmd ''cache'' = contains cmd ''cache''"
    "at_bool ?cmd ''cache'' = at_bool cmd ''cache''"
    "map_of ?cmd ''last_seen'' = Some (JInt64 (to_int32 v))"
    by (simp_all add: at_string_def at_def contains_def at_bool_def update_conv')
  show "handle_subscribe cache_size self cmd b = handle_subscribe cache_size self ?cmd b"
    unfolding handle_subscribe_def k
    by (simp add: v to_int32_idem split: sum.split)
next
  assume "- 2147483648 \<le> v \<and> v \<le> 2147483647"
  then show "to_int32 v = v" by (simp add: to_int32_id)
next
  show "to_int32 4294967296 = 0" by (simp add: to_int32_def)
qed

theorem last_seen_narrowed_witness:
  "handle_subscribe 100 8 (AList.update ''last_seen'' (JInt64 0) subscribe_far) three_sent =
     Inr ((registered 8 ''t'' three_sent)
          \<lparr>caches := (caches three_sent)(''t'' \<mapsto> [stamp send_all 0, stamp send_all 2]),
            written := [(7, success), (7, success), (7, success), (8, success),
                        (8, stamp send_one 1), (8, stamp send_all 2)]\<rparr>) \<and>
   to_int32 7 = 7"
  using last_seen_narrowed [of subscribe_far 4294967296 100 8 three_sent]
    last_seen_narrowed [of subscribe_far 7]
  by (simp add: subscribe_far_fields subscribe_far_on_three)

end
